theory Spec2Isabelle
  imports Complex_Main "HOL-Library.Multiset" "HOL-Library.Sublist" "HOL-Library.AList"
    "HOL-Library.Log_Nat"
begin

text \<open>
  A shallow embedding of the content analytics core of NuVision News: similarity clustering
  (\<open>clustering.ts\<close>), topic discovery and trend analysis (\<open>topicDiscovery.ts\<close>) and the
  query interpreter (\<open>queryParser.ts\<close>), with the properties the specification states
  about them. Numbers of the source are doubles. Counts and article ids are integers.
  Clustering and trend analysis divide two counts and compare with a threshold, which exact
  reals decide as the doubles do; ambiguity detection accumulates decimal fractions, and
  there every operation is rounded to the nearest double.
\<close>

section \<open>Strings and built-in collections of the host language\<close>

text \<open>
  A source string is a list of code units below 256 (ASCII with its Latin-1 supplement).
  \<open>toLowerCase\<close> folds A-Z and the Latin-1 capitals; the regular-expression classes
  \<open>\w\<close> and \<open>\s\<close> are the ones of the language standard restricted to that range.
\<close>

definition lower_char :: "char \<Rightarrow> char" where
  "lower_char c =
     (let n = (of_char c :: nat)
      in if (65 \<le> n \<and> n \<le> 90) \<or> (192 \<le> n \<and> n \<le> 222 \<and> n \<noteq> 215)
         then char_of (n + 32) else c)"

definition toLowerCase :: "string \<Rightarrow> string" where
  "toLowerCase s = map lower_char s"

definition is_word_char :: "char \<Rightarrow> bool" where
  "is_word_char c =
     (let n = (of_char c :: nat)
      in (48 \<le> n \<and> n \<le> 57) \<or> (65 \<le> n \<and> n \<le> 90) \<or> n = 95 \<or> (97 \<le> n \<and> n \<le> 122))"

definition is_space_char :: "char \<Rightarrow> bool" where
  "is_space_char c =
     (let n = (of_char c :: nat) in (9 \<le> n \<and> n \<le> 13) \<or> n = 32 \<or> n = 160)"

text \<open>
  \<open>s.split(/C+/)\<close> for a character class \<open>C\<close>: the fields between maximal runs of
  separator characters; a separator at either end leaves an empty field there, and the
  empty string has the single field \<open>""\<close>.
\<close>

fun split_runs :: "(char \<Rightarrow> bool) \<Rightarrow> string \<Rightarrow> string list" where
  "split_runs sep [] = [[]]"
| "split_runs sep (c # cs) =
     (if sep c then
        (if cs \<noteq> [] \<and> sep (hd cs) then split_runs sep cs else [] # split_runs sep cs)
      else (case split_runs sep cs of
              w # ws \<Rightarrow> (c # w) # ws
            | [] \<Rightarrow> [[c]]))"

text \<open>\<open>s.includes(t)\<close>: \<open>t\<close> occurs in \<open>s\<close> as a contiguous substring.\<close>

fun str_includes :: "string \<Rightarrow> string \<Rightarrow> bool" where
  "str_includes [] t = (t = [])"
| "str_includes (c # cs) t = (prefix t (c # cs) \<or> str_includes cs t)"

text \<open>
  An insertion-ordered \<open>Set\<close>: \<open>add\<close> appends an element that is not yet present;
  \<open>new Set(xs)\<close> adds the elements of \<open>xs\<close> from left to right.
\<close>

definition set_add :: "'a \<Rightarrow> 'a list \<Rightarrow> 'a list" where
  "set_add x s = (if x \<in> set s then s else s @ [x])"

definition new_Set :: "'a list \<Rightarrow> 'a list" where
  "new_Set xs = fold set_add xs []"

text \<open>
  Decimal rendering of an integer, as string interpolation prints it. Article ids are
  integers of magnitude below \<open>2^53\<close>, where a number is its integer value and is printed
  with all its digits (from \<open>10^21\<close> on the host language prints an exponent instead).
\<close>

definition digit_char :: "nat \<Rightarrow> char" where
  "digit_char d = char_of (48 + d)"

fun show_nat :: "nat \<Rightarrow> string" where
  "show_nat n = (if n < 10 then [digit_char n] else show_nat (n div 10) @ [digit_char (n mod 10)])"

definition show_int :: "int \<Rightarrow> string" where
  "show_int i = (if i < 0 then CHR ''-'' # show_nat (nat (- i)) else show_nat (nat i))"

section \<open>Articles\<close>

record Article =
  id_num :: int
  content :: string
  category :: string
  compound :: real
  date :: "string option"
  clusteredSources :: "nat option"

text \<open>
  \<open>new Date(a.date || 0).getTime()\<close>: a missing or empty date is the epoch; the
  parser of date strings belongs to the host language and is a parameter \<open>parseDate\<close>,
  giving a time value in milliseconds (date strings are taken to be valid).
\<close>

definition getTime :: "(string \<Rightarrow> int) \<Rightarrow> Article \<Rightarrow> int" where
  "getTime parseDate a =
     (case date a of None \<Rightarrow> 0 | Some s \<Rightarrow> if s = [] then 0 else parseDate s)"

section \<open>Similarity clustering (clustering.ts)\<close>

record ClusteredArticle = Article +
  clusterId :: string
  isClusterRepresentative :: bool
  clusterSize :: nat
  clusterArticles_f :: "Article list"

definition stopWords :: "string list" where
  "stopWords = [''about'', ''after'', ''before'', ''being'', ''could'', ''would'', ''should'',
     ''their'', ''there'', ''these'', ''those'', ''which'', ''while'', ''other'']"

definition getKeywords :: "Article \<Rightarrow> string list" where
  "getKeywords article =
     (let text = toLowerCase (category article @ '' '' @ content article);
          words = filter (\<lambda>w. length w > 4) (split_runs (\<lambda>c. \<not> is_word_char c) text)
      in take 20 (new_Set (filter (\<lambda>w. w \<notin> set stopWords) words)))"

text \<open>
  The overlap ratio is a quotient \<open>k / m\<close> of two counts with \<open>m \<le> 20\<close>. Its double is
  at least the double \<open>0.3\<close> (or \<open>0.15\<close>) exactly when the rational is at least
  \<open>3/10\<close> (\<open>3/20\<close>), so the thresholds are compared on exact reals.
\<close>

definition similarity :: "string list \<Rightarrow> string list \<Rightarrow> real" where
  "similarity a b =
     (let intersection = length (filter (\<lambda>w. w \<in> set a) b)
      in real intersection / real (max (length a) (max (length b) 1)))"

text \<open>
  The inner \<open>forEach\<close> of \<open>fastCluster\<close>: one step for the element \<open>other\<close> at
  \<open>otherIndex\<close>, on the pair of the cluster under construction and the processed ids
  (the \<open>Set<number>\<close> \<open>processed\<close>). An element is an article with its keywords.
\<close>

definition scan_other ::
  "nat \<Rightarrow> Article \<times> string list \<Rightarrow> nat \<times> (Article \<times> string list) \<Rightarrow>
   Article list \<times> int list \<Rightarrow> Article list \<times> int list" where
  "scan_other index item = (\<lambda>(otherIndex, other) (cluster, processed).
     if index = otherIndex \<or> id_num (fst other) \<in> set processed then (cluster, processed)
     else
       (let sameCat = (category (fst item) = category (fst other));
            sim = similarity (snd item) (snd other)
        in if sim \<ge> 0.3 \<or> (sameCat \<and> sim \<ge> 0.15)
           then (cluster @ [fst other], set_add (id_num (fst other)) processed)
           else (cluster, processed)))"

text \<open>The outer \<open>forEach\<close>: one step on the pair of the cluster map and the processed ids.\<close>

definition visit_item ::
  "(Article \<times> string list) list \<Rightarrow> nat \<times> (Article \<times> string list) \<Rightarrow>
   (string \<times> Article list) list \<times> int list \<Rightarrow> (string \<times> Article list) list \<times> int list" where
  "visit_item articleKeywords = (\<lambda>(index, item) (clusters, processed).
     if id_num (fst item) \<in> set processed then (clusters, processed)
     else
       (let clusterId = ''cluster-'' @ show_int (id_num (fst item));
            (cluster, processed') =
               fold (scan_other index item) (enumerate 0 articleKeywords) ([fst item], processed)
        in (AList.update clusterId cluster clusters, set_add (id_num (fst item)) processed')))"

text \<open>
  One entry of the cluster map as a result element: the most recent member (a stable sort
  by descending time) extended with the cluster fields. A member list starts with its seed,
  so the sorted list has a head.
\<close>

definition to_clustered ::
  "(string \<Rightarrow> int) \<Rightarrow> string \<times> Article list \<Rightarrow> ClusteredArticle" where
  "to_clustered parseDate = (\<lambda>(clusterId, members).
     (let sorted = sort_key (\<lambda>a. - getTime parseDate a) members
      in Article.extend ((hd sorted)\<lparr>clusteredSources := Some (length members)\<rparr>)
           (ClusteredArticle.fields clusterId True (length members) members)))"

definition fastCluster :: "(string \<Rightarrow> int) \<Rightarrow> Article list \<Rightarrow> ClusteredArticle list" where
  "fastCluster parseDate articles =
     (let articleKeywords = map (\<lambda>a. (a, getKeywords a)) articles;
          (clusters, processed) =
             fold (visit_item articleKeywords) (enumerate 0 articleKeywords) ([], [])
      in map (to_clustered parseDate) clusters)"

definition clusterArticles :: "(string \<Rightarrow> int) \<Rightarrow> Article list \<Rightarrow> ClusteredArticle list" where
  "clusterArticles parseDate articles =
     (if length articles = 0 then [] else fastCluster parseDate articles)"

subsection \<open>The greedy pass in the words of the specification\<close>

text \<open>
  Similarity of two term sets: the size of the intersection over the larger of the two
  sizes, the denominator floored at 1. A document is absorbed by a seed when the similarity
  is at least 0.30, or at least 0.15 with the seed's category.
\<close>

definition spec_similarity :: "string set \<Rightarrow> string set \<Rightarrow> real" where
  "spec_similarity A B = real (card (A \<inter> B)) / real (max (card A) (max (card B) 1))"

definition spec_absorbs :: "Article \<Rightarrow> Article \<Rightarrow> bool" where
  "spec_absorbs seed d =
     (let s = spec_similarity (set (getKeywords seed)) (set (getKeywords d))
      in s \<ge> 0.30 \<or> (s \<ge> 0.15 \<and> category d = category seed))"

text \<open>
  Scanning the other documents for a seed: an unprocessed document that meets the criterion
  is absorbed and marked processed. \<open>P\<close> is the set of processed ids.
\<close>

fun spec_scan :: "Article \<Rightarrow> int set \<Rightarrow> Article list \<Rightarrow> Article list \<times> int set" where
  "spec_scan seed P [] = ([], P)"
| "spec_scan seed P (d # ds) =
     (if id_num d \<notin> P \<and> spec_absorbs seed d
      then (let (c, P') = spec_scan seed (insert (id_num d) P) ds in (d # c, P'))
      else spec_scan seed P ds)"

definition others :: "nat \<Rightarrow> 'a list \<Rightarrow> 'a list" where
  "others i xs = map snd (filter (\<lambda>(j, x). j \<noteq> i) (enumerate 0 xs))"

text \<open>
  The pass over the documents in input order: a processed document is skipped, an
  unprocessed one seeds a cluster, absorbs from all other documents, and is marked processed.
\<close>

fun spec_pass :: "Article list \<Rightarrow> int set \<Rightarrow> (nat \<times> Article) list \<Rightarrow> Article list list" where
  "spec_pass docs P [] = []"
| "spec_pass docs P ((i, d) # rest) =
     (if id_num d \<in> P then spec_pass docs P rest
      else (let (c, P') = spec_scan d P (others i docs)
            in (d # c) # spec_pass docs (insert (id_num d) P') rest))"

definition spec_clusters :: "Article list \<Rightarrow> Article list list" where
  "spec_clusters docs = spec_pass docs {} (enumerate 0 docs)"

subsection \<open>Clusters and their members\<close>

text \<open>
  A document is absorbed by a cluster when it is a member after the seed; it forms a
  singleton cluster when some cluster has it as its only member and reports size 1.
\<close>

definition absorbed_elsewhere :: "Article \<Rightarrow> ClusteredArticle list \<Rightarrow> bool" where
  "absorbed_elsewhere d cs = list_ex (\<lambda>c. d \<in> set (tl (clusterArticles_f c))) cs"

definition forms_singleton :: "Article \<Rightarrow> ClusteredArticle list \<Rightarrow> bool" where
  "forms_singleton d cs = list_ex (\<lambda>c. clusterArticles_f c = [d] \<and> clusterSize c = 1) cs"

text \<open>The three documents of the clustering scenario.\<close>

definition doc1 :: Article where
  "doc1 = \<lparr>id_num = 1, content = ''the new artificial intelligence chip'', category = ''Tech'',
     compound = 0, date = None, clusteredSources = None\<rparr>"

definition doc2 :: Article where
  "doc2 = \<lparr>id_num = 2, content = ''artificial intelligence chip launch'', category = ''Tech'',
     compound = 0, date = None, clusteredSources = None\<rparr>"

definition doc3 :: Article where
  "doc3 = \<lparr>id_num = 3, content = ''championship game result'', category = ''Sports'',
     compound = 0, date = None, clusteredSources = None\<rparr>"

section \<open>Topic discovery and trend analysis (topicDiscovery.ts)\<close>

text \<open>
  \<open>Map<Article, _>\<close> and \<open>Set<Article>\<close> compare articles by object identity, so topic
  discovery works on addresses of article objects; the store \<open>h\<close> gives the article at an
  address. The keyword extractor of \<open>tfidfAnalysis\<close> is a parameter \<open>extractKeywords\<close>
  (target text, texts of the collection, number of terms).
\<close>

type_synonym ref = nat

datatype Trend = rising | stable | falling

record Topic =
  name :: string
  count_t :: nat
  articles_t :: "ref list"
  trend :: Trend
  velocity :: real
  keywords_t :: "string list"

record TopicTrend =
  topic :: string
  currentCount :: nat
  previousCount :: nat
  percentageChange :: real
  trend_tt :: Trend

text \<open>
  \<open>if (!m.has(k)) m.set(k, new Set()); m.get(k)!.add(a)\<close> on an insertion-ordered map
  of insertion-ordered sets.
\<close>

text \<open>The default value of the parameter \<open>minArticles\<close> of \<open>discoverTopics\<close>.\<close>

definition minArticles_default :: int where
  "minArticles_default = 3"

definition freq_add :: "string \<Rightarrow> ref \<Rightarrow> (string \<times> ref list) list \<Rightarrow> (string \<times> ref list) list" where
  "freq_add keyword article keywordFrequency =
     (case map_of keywordFrequency keyword of
        None \<Rightarrow> AList.update keyword (set_add article []) keywordFrequency
      | Some s \<Rightarrow> AList.update keyword (set_add article s) keywordFrequency)"

definition make_topic :: "(ref \<times> string list) list \<Rightarrow> string \<times> ref list \<Rightarrow> Topic" where
  "make_topic articleKeywords = (\<lambda>(keyword, relatedArticles).
     (let articlesArray = relatedArticles;
          relatedKeywords =
            fold (\<lambda>article rk.
                    fold (\<lambda>k rk. if k \<noteq> keyword then set_add k rk else rk)
                      (case map_of articleKeywords article of Some ks \<Rightarrow> ks | None \<Rightarrow> []) rk)
              articlesArray []
      in \<lparr>name = keyword, count_t = length articlesArray, articles_t = articlesArray,
          trend = stable, velocity = 0, keywords_t = take 5 relatedKeywords\<rparr>))"

definition discoverTopics ::
  "(string \<Rightarrow> string list \<Rightarrow> nat \<Rightarrow> string list) \<Rightarrow> (ref \<Rightarrow> Article) \<Rightarrow> ref list \<Rightarrow> int \<Rightarrow> Topic list" where
  "discoverTopics extractKeywords h articles minArticles =
     (if length articles = 0 then []
      else
        (let articleKeywords =
               fold (\<lambda>article m.
                       AList.update article
                         (map toLowerCase
                            (extractKeywords (content (h article)) (map (\<lambda>a. content (h a)) articles) 10))
                         m)
                 articles [];
             keywordFrequency =
               fold (\<lambda>(article, keywords) kf. fold (\<lambda>keyword kf. freq_add keyword article kf) keywords kf)
                 articleKeywords [];
             significantKeywords =
               sort_key (\<lambda>(keyword, arts). - int (length arts))
                 (filter (\<lambda>(keyword, arts). int (length arts) \<ge> minArticles) keywordFrequency)
         in map (make_topic articleKeywords) (take 20 significantKeywords)))"

definition trend_of :: "Topic list \<Rightarrow> Topic \<Rightarrow> TopicTrend" where
  "trend_of previousTopics currentTopic =
     (let previousTopic = find (\<lambda>t. name t = name currentTopic) previousTopics;
          previousCount = (case previousTopic of Some t \<Rightarrow> count_t t | None \<Rightarrow> 0);
          currentCount = count_t currentTopic;
          percentageChange =
            (if previousCount > 0
             then ((real currentCount - real previousCount) / real previousCount) * 100
             else 100);
          tr = (if percentageChange > 20 then rising
                else if percentageChange < - 20 then falling
                else stable)
      in \<lparr>topic = name currentTopic, currentCount = currentCount, previousCount = previousCount,
          percentageChange = percentageChange, trend_tt = tr\<rparr>)"

definition analyzeTopicTrends ::
  "(string \<Rightarrow> string list \<Rightarrow> nat \<Rightarrow> string list) \<Rightarrow> (ref \<Rightarrow> Article) \<Rightarrow> ref list \<Rightarrow> ref list \<Rightarrow>
   TopicTrend list" where
  "analyzeTopicTrends extractKeywords h currentArticles previousArticles =
     (let currentTopics = discoverTopics extractKeywords h currentArticles minArticles_default;
          previousTopics = discoverTopics extractKeywords h previousArticles minArticles_default;
          trends = map (trend_of previousTopics) currentTopics
      in sort_key (\<lambda>t. - \<bar>percentageChange t\<bar>) trends)"

definition enrich :: "TopicTrend list \<Rightarrow> Topic \<Rightarrow> Topic" where
  "enrich trends tp =
     (let trendData = find (\<lambda>t. topic t = name tp) trends
      in tp\<lparr>trend := (case trendData of Some t \<Rightarrow> trend_tt t | None \<Rightarrow> stable),
            velocity := (case trendData of Some t \<Rightarrow> percentageChange t | None \<Rightarrow> 0)\<rparr>)"

definition getEmergingTopics ::
  "(string \<Rightarrow> string list \<Rightarrow> nat \<Rightarrow> string list) \<Rightarrow> (string \<Rightarrow> int) \<Rightarrow> (ref \<Rightarrow> Article) \<Rightarrow> ref list \<Rightarrow>
   Topic list" where
  "getEmergingTopics extractKeywords parseDate h articles =
     (let sortedArticles = sort_key (\<lambda>a. - getTime parseDate (h a)) articles;
          midpoint = length sortedArticles div 2;
          recentArticles = take midpoint sortedArticles;
          olderArticles = drop midpoint sortedArticles;
          trends = analyzeTopicTrends extractKeywords h recentArticles olderArticles;
          topics = discoverTopics extractKeywords h articles minArticles_default
      in sort_key (\<lambda>t. - \<bar>velocity t\<bar>) (map (enrich trends) topics))"

definition group_add :: "(ref \<Rightarrow> Article) \<Rightarrow> ref \<Rightarrow> (string \<times> ref list) list \<Rightarrow> (string \<times> ref list) list" where
  "group_add h article articlesByCategory =
     (case map_of articlesByCategory (category (h article)) of
        None \<Rightarrow> AList.update (category (h article)) [article] articlesByCategory
      | Some l \<Rightarrow> AList.update (category (h article)) (l @ [article]) articlesByCategory)"

definition getTopicsByCategory ::
  "(string \<Rightarrow> string list \<Rightarrow> nat \<Rightarrow> string list) \<Rightarrow> (ref \<Rightarrow> Article) \<Rightarrow> ref list \<Rightarrow>
   (string \<times> Topic list) list" where
  "getTopicsByCategory extractKeywords h articles =
     (let articlesByCategory = fold (group_add h) articles []
      in fold (\<lambda>(cat, categoryArticles) categoryMap.
                 AList.update cat (discoverTopics extractKeywords h categoryArticles 2) categoryMap)
           articlesByCategory [])"

definition findRelatedTopics :: "(ref \<Rightarrow> Article) \<Rightarrow> Topic \<Rightarrow> Topic list \<Rightarrow> Topic list" where
  "findRelatedTopics h tp allTopics =
     (let topicArticleIds = new_Set (map (\<lambda>a. id_num (h a)) (articles_t tp))
      in map fst
           (take 5
              (sort_key (\<lambda>(t, overlap). - int overlap)
                 (filter (\<lambda>(t, overlap). overlap > 0)
                    (map (\<lambda>t. (t, length (filter (\<lambda>a. id_num (h a) \<in> set topicArticleIds) (articles_t t))))
                       (filter (\<lambda>t. name t \<noteq> name tp) allTopics))))))"

text \<open>
  A store and an extractor for examples: every address holds an article whose text is a
  single word, \<open>alpha\<close> below address 10 and \<open>beta\<close> from there on; the extractor returns
  the first whitespace-separated words of the text.
\<close>

definition ex_store :: "ref \<Rightarrow> Article" where
  "ex_store r = \<lparr>id_num = int r, content = (if r < 10 then ''alpha'' else ''beta''),
     category = ''Tech'', compound = 0, date = None, clusteredSources = None\<rparr>"

definition ex_extract :: "string \<Rightarrow> string list \<Rightarrow> nat \<Rightarrow> string list" where
  "ex_extract text collection k = take k (split_runs is_space_char text)"

text \<open>
  The invariant of the keyword-frequency map over a collection with address set \<open>S\<close>: the
  keys are distinct, and each value is a duplicate-free list of addresses of the collection.
\<close>

definition kf_ok :: "ref set \<Rightarrow> (string \<times> ref list) list \<Rightarrow> bool" where
  "kf_ok S kf = (distinct (map fst kf) \<and> (\<forall>p \<in> set kf. distinct (snd p) \<and> set (snd p) \<subseteq> S))"

section \<open>Doubles\<close>

text \<open>
  A double is the real number it denotes. \<open>fl\<close> rounds a real to the nearest double, a
  tie going to the even significand: with \<open>2^e \<le> |x| < 2^(e+1)\<close> the result is a multiple
  of \<open>2^(e-52)\<close>, and of \<open>2^(-1074)\<close> in the subnormal range. Overflow to infinity is left
  out (the numbers rounded here are below 11 in magnitude). An arithmetic operation of the
  source is the exact operation followed by \<open>fl\<close>, and a decimal literal \<open>q\<close> is
  \<open>fl q\<close>.
\<close>

definition expo :: "real \<Rightarrow> int" where
  "expo a = (if 1 \<le> a then int (floorlog 2 (nat \<lfloor>a\<rfloor>)) - 1
             else - int (floorlog 2 (nat (\<lceil>1 / a\<rceil> - 1))))"

definition round_even :: "real \<Rightarrow> int" where
  "round_even t =
     (let f = \<lfloor>t\<rfloor>; r = t - of_int f
      in if r < 1 / 2 then f else if 1 / 2 < r then f + 1 else if even f then f else f + 1)"

definition ulp_exp :: "real \<Rightarrow> int" where
  "ulp_exp a = max (expo a - 52) (- 1074)"

definition fl :: "real \<Rightarrow> real" where
  "fl x =
     (if x = 0 then 0
      else sgn x * of_int (round_even (\<bar>x\<bar> / 2 powi ulp_exp \<bar>x\<bar>)) * 2 powi ulp_exp \<bar>x\<bar>)"

definition dadd :: "real \<Rightarrow> real \<Rightarrow> real" where
  "dadd x y = fl (x + y)"

definition dsub :: "real \<Rightarrow> real \<Rightarrow> real" where
  "dsub x y = fl (x - y)"

definition dmul :: "real \<Rightarrow> real \<Rightarrow> real" where
  "dmul x y = fl (x * y)"

text \<open>The decimal literals 0.1, 0.15, 0.2, 0.7 and 0.8 as doubles.\<close>

definition lit_0_1 :: real where
  "lit_0_1 = fl (1 / 10)"

definition lit_0_15 :: real where
  "lit_0_15 = fl (15 / 100)"

definition lit_0_2 :: real where
  "lit_0_2 = fl (2 / 10)"

definition lit_0_7 :: real where
  "lit_0_7 = fl (7 / 10)"

definition lit_0_8 :: real where
  "lit_0_8 = fl (8 / 10)"

section \<open>Query interpreter (queryParser.ts)\<close>

datatype Intent = Search | Filter | Analyze | Compare | Summarize

datatype Sentiment = Positive | Negative | Neutral

definition sentiment_str :: "Sentiment \<Rightarrow> string" where
  "sentiment_str s = (case s of Positive \<Rightarrow> ''positive'' | Negative \<Rightarrow> ''negative'' | Neutral \<Rightarrow> ''neutral'')"

text \<open>A date is its time value in milliseconds.\<close>

record DateRange =
  start :: int
  end_d :: int

record Filters =
  sentiment :: "Sentiment option"
  categories :: "string list option"
  dateRange :: "DateRange option"
  sources :: "string list option"
  keywords_f :: "string list option"

record ParsedQuery =
  intent :: Intent
  filters :: Filters
  action :: "string option"
  originalQuery :: string

definition CATEGORY_PATTERNS :: "(string \<times> string list) list" where
  "CATEGORY_PATTERNS =
     [(''Technology'', [''tech'', ''technology'', ''software'', ''ai'', ''artificial intelligence'', ''computer'', ''digital'']),
      (''Politics'', [''politics'', ''political'', ''election'', ''government'', ''policy'', ''congress'', ''president'']),
      (''Business'', [''business'', ''market'', ''stock'', ''economy'', ''company'', ''trade'', ''finance'', ''economic'']),
      (''Science'', [''science'', ''scientific'', ''research'', ''study'', ''discovery'']),
      (''Health'', [''health'', ''medical'', ''medicine'', ''healthcare'', ''disease'', ''wellness'']),
      (''Sports'', [''sports'', ''game'', ''team'', ''player'', ''championship'', ''league'']),
      (''Entertainment'', [''entertainment'', ''movie'', ''film'', ''music'', ''celebrity'', ''show'']),
      (''World News'', [''world'', ''international'', ''global'', ''foreign'']),
      (''Environment'', [''environment'', ''climate'', ''green'', ''sustainability'', ''pollution''])]"

definition extractCategories :: "string \<Rightarrow> string list" where
  "extractCategories query =
     map fst (filter (\<lambda>(cat, kws). list_ex (\<lambda>keyword. str_includes query keyword) kws) CATEGORY_PATTERNS)"

subsection \<open>Response generation\<close>

text \<open>\<open>xs.join(sep)\<close>.\<close>

fun join :: "string \<Rightarrow> string list \<Rightarrow> string" where
  "join sep [] = []"
| "join sep [x] = x"
| "join sep (x # y # zs) = x @ sep @ join sep (y # zs)"

text \<open>
  The clause list \<open>descriptions\<close> of \<open>generateResponse\<close>. The calendar functions of the host
  language are parameters: \<open>today\<close> is \<open>new Date().toDateString()\<close>, and
  \<open>toDateString\<close>, \<open>toLocaleDateString\<close> render a time value.
\<close>

definition describe_filters ::
  "string \<Rightarrow> (int \<Rightarrow> string) \<Rightarrow> (int \<Rightarrow> string) \<Rightarrow> Filters \<Rightarrow> string list" where
  "describe_filters today toDateString toLocaleDateString fs =
     (let descriptions = [];
          descriptions =
            (case sentiment fs of
               Some s \<Rightarrow> descriptions @ [''with '' @ sentiment_str s @ '' sentiment'']
             | None \<Rightarrow> descriptions);
          descriptions =
            (case categories fs of
               Some cs \<Rightarrow> if length cs > 0 then descriptions @ [''in '' @ join '', '' cs] else descriptions
             | None \<Rightarrow> descriptions);
          descriptions =
            (case dateRange fs of
               Some dr \<Rightarrow>
                 (let isToday = (toDateString (start dr) = today);
                      isThisWeek = (end_d dr - start dr \<le> 7 * 24 * 60 * 60 * 1000)
                  in if isToday then descriptions @ [''from today'']
                     else if isThisWeek then descriptions @ [''from this week'']
                     else descriptions @
                       [''from '' @ toLocaleDateString (start dr) @ '' to '' @ toLocaleDateString (end_d dr)])
             | None \<Rightarrow> descriptions);
          descriptions =
            (case keywords_f fs of
               Some ks \<Rightarrow>
                 if length ks > 0
                 then descriptions @ [''matching '' @ [CHR 0x22] @ join '', '' ks @ [CHR 0x22]]
                 else descriptions
             | None \<Rightarrow> descriptions)
      in descriptions)"

text \<open>The response up to and including the full stop (before the intent-specific part).\<close>

definition found_sentence ::
  "string \<Rightarrow> (int \<Rightarrow> string) \<Rightarrow> (int \<Rightarrow> string) \<Rightarrow> ParsedQuery \<Rightarrow> Article list \<Rightarrow> string" where
  "found_sentence today toDateString toLocaleDateString query results =
     (let response = ''Found '' @ show_nat (length results) @ '' article'' @
                       (if length results \<noteq> 1 then ''s'' else '''');
          descriptions = describe_filters today toDateString toLocaleDateString (filters query);
          response = (if length descriptions > 0 then response @ '' '' @ join '' '' descriptions
                      else response)
      in response @ ''.'')"

definition no_results_sentence :: string where
  "no_results_sentence = ''I couldn'' @ [CHR 0x27] @
     ''t find any articles matching your query. Try adjusting your search criteria or using different keywords.''"

definition generateResponse ::
  "string \<Rightarrow> (int \<Rightarrow> string) \<Rightarrow> (int \<Rightarrow> string) \<Rightarrow> ParsedQuery \<Rightarrow> Article list \<Rightarrow> string" where
  "generateResponse today toDateString toLocaleDateString query results =
     (let response = found_sentence today toDateString toLocaleDateString query results;
          response =
            (if intent query = Summarize \<and> length results > 0
             then response @ '' I can provide a summary of these articles.''
             else if intent query = Analyze \<and> length results > 0
             then response @ '' I can analyze these articles for patterns and insights.''
             else if intent query = Compare \<and> length results > 1
             then response @ '' I can compare how different sources cover this topic.''
             else response);
          response = (if length results = 0 then no_results_sentence else response)
      in response)"

subsection \<open>Ambiguity detection\<close>

record AmbiguityOption =
  label :: string
  value_o :: string
  description :: "string option"
  confidence_o :: real

record AmbiguityResult =
  isAmbiguous :: bool
  confidence :: real
  clarityScore :: int
  options :: "AmbiguityOption list"
  suggestions :: "string list"
  ambiguousTerms :: "string list"

definition AMBIGUOUS_ENTITIES :: "(string \<times> AmbiguityOption list) list" where
  "AMBIGUOUS_ENTITIES =
     [(''apple'',
        [\<lparr>label = ''Apple Inc. (Technology)'', value_o = ''apple_tech'',
           description = Some ''Tech company, iPhone, Mac'', confidence_o = 0.8\<rparr>,
         \<lparr>label = ''Apple (Fruit)'', value_o = ''apple_fruit'',
           description = Some ''The fruit'', confidence_o = 0.2\<rparr>]),
      (''bank'',
        [\<lparr>label = ''Banking & Finance'', value_o = ''bank_finance'',
           description = Some ''Financial institutions'', confidence_o = 0.85\<rparr>,
         \<lparr>label = ''River Bank'', value_o = ''bank_nature'',
           description = Some ''Geographic feature'', confidence_o = 0.15\<rparr>]),
      (''amazon'',
        [\<lparr>label = ''Amazon.com'', value_o = ''amazon_company'',
           description = Some ''E-commerce company'', confidence_o = 0.9\<rparr>,
         \<lparr>label = ''Amazon Rainforest'', value_o = ''amazon_nature'',
           description = Some ''South American forest'', confidence_o = 0.1\<rparr>]),
      (''python'',
        [\<lparr>label = ''Python (Programming)'', value_o = ''python_tech'',
           description = Some ''Programming language'', confidence_o = 0.7\<rparr>,
         \<lparr>label = ''Python (Snake)'', value_o = ''python_animal'',
           description = Some ''The reptile'', confidence_o = 0.3\<rparr>]),
      (''tesla'',
        [\<lparr>label = ''Tesla Inc.'', value_o = ''tesla_company'',
           description = Some ''Electric car company'', confidence_o = 0.85\<rparr>,
         \<lparr>label = ''Nikola Tesla'', value_o = ''tesla_person'',
           description = Some ''Historical inventor'', confidence_o = 0.15\<rparr>]),
      (''china'',
        [\<lparr>label = ''China (Country)'', value_o = ''china_country'',
           description = Some (''People'' @ [CHR 0x27] @ ''s Republic of China''), confidence_o = 0.8\<rparr>,
         \<lparr>label = ''China (Economy)'', value_o = ''china_economy'',
           description = Some ''Chinese business/trade'', confidence_o = 0.2\<rparr>]),
      (''virus'',
        [\<lparr>label = ''Computer Virus'', value_o = ''virus_tech'',
           description = Some ''Malware, cybersecurity'', confidence_o = 0.4\<rparr>,
         \<lparr>label = ''Biological Virus'', value_o = ''virus_health'',
           description = Some ''Disease, pandemic'', confidence_o = 0.6\<rparr>])]"

definition VAGUE_TERMS :: "string list" where
  "VAGUE_TERMS = [''stuff'', ''things'', ''news'', ''latest'', ''recent'', ''something'',
     ''anything'', ''everything'']"

text \<open>
  \<open>s.replace(new RegExp(term, 'gi'), rep)\<close> for a pattern of literal characters: every
  occurrence of \<open>term\<close>, compared without case and found from left to right without
  overlap, is replaced by \<open>rep\<close>. The empty pattern matches before every character and at
  the end.
\<close>

function replace_gi :: "string \<Rightarrow> string \<Rightarrow> string \<Rightarrow> string" where
  "replace_gi term rep s =
     (if term = [] then concat (map (\<lambda>c. rep @ [c]) s) @ rep
      else if s = [] then []
      else if length term \<le> length s \<and> toLowerCase (take (length term) s) = toLowerCase term
      then rep @ replace_gi term rep (drop (length term) s)
      else hd s # replace_gi term rep (tl s))"
  by pat_completeness auto
termination
  by (relation "measure (\<lambda>(term, rep, s). length s)") auto

text \<open>\<open>label.split(' ')[0]\<close>: the part of the label before its first space.\<close>

definition first_word :: "string \<Rightarrow> string" where
  "first_word l = takeWhile (\<lambda>c. c \<noteq> CHR '' '') l"

text \<open>\<open>Math.round\<close>: the nearest integer, a half rounded up; the result is exact.\<close>

definition Math_round :: "real \<Rightarrow> int" where
  "Math_round x = \<lfloor>x + 1 / 2\<rfloor>"

text \<open>
  One step of the loop over the entity table, on \<open>ambiguousTerms\<close>, \<open>options\<close>,
  \<open>suggestions\<close> and \<open>confidencePenalty\<close>; and one step of the loop over the vague terms.
\<close>

definition entity_step ::
  "string \<Rightarrow> string \<Rightarrow> string \<times> AmbiguityOption list \<Rightarrow>
   string list \<times> AmbiguityOption list \<times> string list \<times> real \<Rightarrow>
   string list \<times> AmbiguityOption list \<times> string list \<times> real" where
  "entity_step query lowerQuery = (\<lambda>(term, termOptions) (terms, opts, suggs, penalty).
     if str_includes lowerQuery term
     then (terms @ [term], opts @ termOptions,
           suggs @ map (\<lambda>opt. replace_gi term (first_word (label opt)) query) termOptions,
           dadd penalty lit_0_2)
     else (terms, opts, suggs, penalty))"

definition vague_step :: "string list \<Rightarrow> string \<Rightarrow> string list \<times> real \<Rightarrow> string list \<times> real" where
  "vague_step words term = (\<lambda>(terms, penalty).
     if term \<in> set words then (terms @ [term], dadd penalty lit_0_1) else (terms, penalty))"

definition detectAmbiguity :: "string \<Rightarrow> Article list \<Rightarrow> AmbiguityResult" where
  "detectAmbiguity query articles =
     (let lowerQuery = toLowerCase query;
          words = split_runs is_space_char lowerQuery;
          (terms, opts, suggs, penalty) =
             fold (entity_step query lowerQuery) AMBIGUOUS_ENTITIES ([], [], [], 0);
          (terms, penalty) = fold (vague_step words) VAGUE_TERMS (terms, penalty);
          penalty = (if length words \<le> 2 then dadd penalty lit_0_15 else penalty);
          cats = extractCategories lowerQuery;
          (penalty, suggs) =
             (if length cats > 2
              then (dadd penalty lit_0_1,
                    suggs @ [''Show me '' @ hd cats @ '' news specifically''])
              else (penalty, suggs));
          conf = max lit_0_1 (dsub 1 penalty);
          clarity = Math_round (dmul conf 10)
      in \<lparr>isAmbiguous = conf < lit_0_7, confidence = conf, clarityScore = clarity, options = opts,
          suggestions = take 3 (new_Set suggs), ambiguousTerms = terms\<rparr>)"

text \<open>
  The entity entries whose term occurs in the lower-cased query, the vague terms that are
  words of it, and the penalty accumulated in the order of the source: 0.2 for each entity
  entry, then 0.1 for each vague term, then the length and category penalties.
\<close>

definition entity_hits :: "string \<Rightarrow> (string \<times> AmbiguityOption list) list" where
  "entity_hits lowerQuery = filter (\<lambda>(term, termOptions). str_includes lowerQuery term) AMBIGUOUS_ENTITIES"

definition vague_hits :: "string list \<Rightarrow> string list" where
  "vague_hits words = filter (\<lambda>term. term \<in> set words) VAGUE_TERMS"

definition total_penalty :: "string \<Rightarrow> real" where
  "total_penalty query =
     (let lowerQuery = toLowerCase query;
          words = split_runs is_space_char lowerQuery;
          penalty = ((\<lambda>p. dadd p lit_0_2) ^^ length (entity_hits lowerQuery)) 0;
          penalty = ((\<lambda>p. dadd p lit_0_1) ^^ length (vague_hits words)) penalty;
          penalty = (if length words \<le> 2 then dadd penalty lit_0_15 else penalty);
          penalty = (if length (extractCategories lowerQuery) > 2 then dadd penalty lit_0_1
                     else penalty)
      in penalty)"

definition entity_suggestions :: "string \<Rightarrow> string list" where
  "entity_suggestions query =
     concat (map (\<lambda>(term, termOptions).
                    map (\<lambda>opt. replace_gi term (first_word (label opt)) query) termOptions)
               (entity_hits (toLowerCase query)))"

definition category_suggestion :: "string \<Rightarrow> string list" where
  "category_suggestion query =
     (let cats = extractCategories (toLowerCase query)
      in if length cats > 2 then [''Show me '' @ hd cats @ '' news specifically''] else [])"

text \<open>
  The reading of the suggestions as substitutions of the top label only: for each entity
  term, the query with the term replaced by the first word of its first-listed label, and
  (second list) of its label of highest confidence.
\<close>

definition best_option :: "AmbiguityOption list \<Rightarrow> AmbiguityOption" where
  "best_option opts = fold (\<lambda>opt best. if confidence_o opt > confidence_o best then opt else best) (tl opts) (hd opts)"

definition first_label_suggestions :: "string \<Rightarrow> string list" where
  "first_label_suggestions query =
     map (\<lambda>(term, termOptions). replace_gi term (first_word (label (hd termOptions))) query)
       AMBIGUOUS_ENTITIES"

definition best_label_suggestions :: "string \<Rightarrow> string list" where
  "best_label_suggestions query =
     map (\<lambda>(term, termOptions). replace_gi term (first_word (label (best_option termOptions))) query)
       AMBIGUOUS_ENTITIES"

text \<open>A query with intent \<open>compare\<close> and no filters.\<close>

definition compare_query :: ParsedQuery where
  "compare_query = \<lparr>intent = Compare,
     filters = \<lparr>sentiment = None, categories = None, dateRange = None, sources = None, keywords_f = None\<rparr>,
     action = None, originalQuery = ''compare coverage''\<rparr>"

section \<open>Auxiliary facts about the built-in collections\<close>


lemma distinct_set_add: "distinct s \<Longrightarrow> distinct (set_add x s)"
  by (simp add: set_add_def)

lemma set_set_add: "set (set_add x s) = insert x (set s)"
  by (auto simp: set_add_def)

lemma fold_set_add: "distinct acc \<Longrightarrow> distinct (fold set_add xs acc) \<and> set (fold set_add xs acc) = set xs \<union> set acc"
  by (induction xs arbitrary: acc) (auto simp: distinct_set_add set_set_add)

lemma distinct_new_Set: "distinct (new_Set xs)"
  by (simp add: new_Set_def fold_set_add)

lemma set_new_Set: "set (new_Set xs) = set xs"
  by (simp add: new_Set_def fold_set_add)

lemma distinct_getKeywords: "distinct (getKeywords a)"
  by (simp add: getKeywords_def Let_def distinct_new_Set)

lemma digit_char_inj: "a < 10 \<Longrightarrow> b < 10 \<Longrightarrow> digit_char a = digit_char b \<Longrightarrow> a = b"
  unfolding digit_char_def
  by (simp add: char_of_eq_iff take_bit_nat_eq_self)

lemma digit_char_not_minus: "a < 10 \<Longrightarrow> digit_char a \<noteq> CHR ''-''"
proof
  assume a: "a < 10" and "digit_char a = CHR ''-''"
  then have "(of_char (digit_char a) :: nat) = of_char (CHR ''-'')" by simp
  with a show False by (simp add: digit_char_def)
qed

declare show_nat.simps [simp del]

lemma show_nat_length: "length (show_nat n) = (if n < 10 then 1 else Suc (length (show_nat (n div 10))))"
  by (subst show_nat.simps) simp

lemma show_nat_inj: "show_nat n = show_nat m \<Longrightarrow> n = m"
proof (induction n arbitrary: m rule: show_nat.induct)
  case (1 n)
  show ?case
  proof (cases "n < 10")
    case True
    then have ln: "length (show_nat n) = 1" by (simp add: show_nat_length)
    have m: "m < 10"
    proof (rule ccontr)
      assume "\<not> m < 10"
      then have "length (show_nat m) \<ge> 2" 
        by (subst show_nat_length) (simp, subst show_nat_length, simp)
      with ln 1(2) show False by simp
    qed
    from 1(2) True m have "digit_char n = digit_char m" by (simp add: show_nat.simps)
    with True m show ?thesis by (rule digit_char_inj)
  next
    case False
    have m: "\<not> m < 10"
    proof
      assume "m < 10"
      then have "length (show_nat m) = 1" by (simp add: show_nat_length)
      moreover from False have "length (show_nat n) \<ge> 2"
        by (subst show_nat_length) (simp, subst show_nat_length, simp)
      ultimately show False using 1(2) by simp
    qed
    have "show_nat n = show_nat (n div 10) @ [digit_char (n mod 10)]" using False
      by (subst show_nat.simps) simp
    moreover have "show_nat m = show_nat (m div 10) @ [digit_char (m mod 10)]" using m
      by (subst show_nat.simps) simp
    ultimately have e: "show_nat (n div 10) = show_nat (m div 10)" "digit_char (n mod 10) = digit_char (m mod 10)"
      using 1(2) by simp_all
    from 1(1)[OF False e(1)] have "n div 10 = m div 10" .
    moreover from e(2) have "n mod 10 = m mod 10" by (intro digit_char_inj) simp_all
    ultimately show ?thesis by (metis div_mult_mod_eq)
  qed
qed

lemma show_nat_no_minus: "CHR ''-'' \<notin> set (show_nat n)"
proof (induction n rule: show_nat.induct)
  case (1 n)
  show ?case
  proof (cases "n < 10")
    case True
    then show ?thesis using digit_char_not_minus[of n] by (subst show_nat.simps) auto
  next
    case False
    then show ?thesis using 1 digit_char_not_minus[of "n mod 10"] by (subst show_nat.simps) auto
  qed
qed

lemma show_int_inj: "show_int i = show_int j \<Longrightarrow> i = j"
proof -
  assume e: "show_int i = show_int j"
  have neg: "\<And>a b. a < 0 \<Longrightarrow> \<not> b < 0 \<Longrightarrow> show_int a \<noteq> show_int b"
  proof
    fix a b :: int assume "a < 0" "\<not> b < 0" "show_int a = show_int b"
    then have "CHR ''-'' \<in> set (show_nat (nat b))" by (simp add: show_int_def) (metis list.set_intros(1))
    then show False by (simp add: show_nat_no_minus)
  qed
  show ?thesis
  proof (cases "i < 0")
    case True
    with neg[of i j] e have "j < 0" by auto
    with True e have "show_nat (nat (- i)) = show_nat (nat (- j))" by (simp add: show_int_def)
    then have "nat (- i) = nat (- j)" by (rule show_nat_inj)
    with True \<open>j < 0\<close> show ?thesis by simp
  next
    case False
    with neg[of j i] e have "\<not> j < 0" by auto
    with False e have "show_nat (nat i) = show_nat (nat j)" by (simp add: show_int_def)
    then have "nat i = nat j" by (rule show_nat_inj)
    with False \<open>\<not> j < 0\<close> show ?thesis by simp
  qed
qed


section \<open>Clustering: the code against the greedy pass of the specification\<close>


lemma similarity_spec:
  "distinct a \<Longrightarrow> distinct b \<Longrightarrow> similarity a b = spec_similarity (set a) (set b)"
proof -
  assume a: "distinct a" and b: "distinct b"
  have "set (filter (\<lambda>w. w \<in> set a) b) = set a \<inter> set b" by auto
  moreover have "distinct (filter (\<lambda>w. w \<in> set a) b)" using b by simp
  ultimately have "length (filter (\<lambda>w. w \<in> set a) b) = card (set a \<inter> set b)"
    by (metis distinct_card)
  with a b show ?thesis
    by (simp add: similarity_def spec_similarity_def distinct_card)
qed

lemma spec_scan_mono: "spec_scan seed P ds = (c, P') \<Longrightarrow> P \<subseteq> P'"
  by (induction ds arbitrary: P c P') (auto split: if_splits prod.splits)

lemma scan_fold:
  assumes "snd item = getKeywords (fst item)"
  shows "\<forall>y \<in> set ys. snd y = getKeywords (fst y) \<Longrightarrow>
    spec_scan (fst item) (set P) (map (\<lambda>p. fst (snd p)) (filter (\<lambda>(j, x). j \<noteq> i) (enumerate n ys))) = (c', Q) \<Longrightarrow>
    \<exists>P'. fold (scan_other i item) (enumerate n ys) (c, P) = (c @ c', P') \<and> set P' = Q"
proof (induction ys arbitrary: n c P c' Q)
  case Nil
  then show ?case by simp
next
  case (Cons y ys)
  have ky: "snd y = getKeywords (fst y)" using Cons.prems(1) by simp
  have crit: "(similarity (snd item) (snd y) \<ge> 0.3 \<or> (category (fst item) = category (fst y) \<and> similarity (snd item) (snd y) \<ge> 0.15))
      = spec_absorbs (fst item) (fst y)"
    by (auto simp: assms ky similarity_spec distinct_getKeywords spec_absorbs_def Let_def)
  show ?case
  proof (cases "i = n \<or> id_num (fst y) \<in> set P")
    case True
    then have step: "scan_other i item (n, y) (c, P) = (c, P)" by (auto simp: scan_other_def)
    from True Cons.prems(2)
    have "spec_scan (fst item) (set P) (map (\<lambda>p. fst (snd p)) (filter (\<lambda>(j, x). j \<noteq> i) (enumerate (Suc n) ys))) = (c', Q)"
      by (auto split: if_splits)
    from Cons.IH[OF _ this, of c] Cons.prems(1) show ?thesis by (simp add: step)
  next
    case False
    show ?thesis
    proof (cases "spec_absorbs (fst item) (fst y)")
      case True
      with False crit have step: "scan_other i item (n, y) (c, P) = (c @ [fst y], set_add (id_num (fst y)) P)"
        by (auto simp: scan_other_def Let_def)
      from True False Cons.prems(2) obtain c'' where
        c'': "spec_scan (fst item) (set (set_add (id_num (fst y)) P)) (map (\<lambda>p. fst (snd p)) (filter (\<lambda>(j, x). j \<noteq> i) (enumerate (Suc n) ys))) = (c'', Q)"
        and c': "c' = fst y # c''"
        by (auto simp: set_set_add split: prod.splits)
      from Cons.IH[OF _ c'', of "c @ [fst y]"] Cons.prems(1) c' show ?thesis by (simp add: step)
    next
      case no: False
      with False crit have step: "scan_other i item (n, y) (c, P) = (c, P)"
        by (auto simp: scan_other_def Let_def)
      from no False Cons.prems(2)
      have "spec_scan (fst item) (set P) (map (\<lambda>p. fst (snd p)) (filter (\<lambda>(j, x). j \<noteq> i) (enumerate (Suc n) ys))) = (c', Q)"
        by (auto split: if_splits)
      from Cons.IH[OF _ this, of c] Cons.prems(1) show ?thesis by (simp add: step)
    qed
  qed
qed



lemma others_items:
  "map (\<lambda>p. fst (snd p)) (filter (\<lambda>(j, x). j \<noteq> i) (enumerate n (map (\<lambda>a. (a, g a)) xs)))
     = map snd (filter (\<lambda>(j, x). j \<noteq> i) (enumerate n xs))"
  by (induction xs arbitrary: n) auto

lemma update_fresh: "k \<notin> fst ` set al \<Longrightarrow> AList.update k v al = al @ [(k, v)]"
  by (induction al) auto

lemma visit_fold:
  assumes aks: "aks = map (\<lambda>a. (a, getKeywords a)) docs"
  shows "fst ` set clusters \<subseteq> (\<lambda>i. ''cluster-'' @ show_int i) ` set P \<Longrightarrow>
    map snd (fst (fold (visit_item aks) (enumerate n (map (\<lambda>a. (a, getKeywords a)) post)) (clusters, P)))
      = map snd clusters @ spec_pass docs (set P) (enumerate n post)"
proof (induction post arbitrary: n clusters P)
  case Nil
  then show ?case by simp
next
  case (Cons d post)
  let ?item = "(d, getKeywords d)"
  show ?case
  proof (cases "id_num d \<in> set P")
    case True
    then have "visit_item aks (n, ?item) (clusters, P) = (clusters, P)"
      by (simp add: visit_item_def)
    with True Cons.IH[OF Cons.prems, of "Suc n"] show ?thesis by simp
  next
    case False
    obtain c' Q where sc: "spec_scan d (set P) (others n docs) = (c', Q)"
      by (cases "spec_scan d (set P) (others n docs)") auto
    have "spec_scan (fst ?item) (set P)
            (map (\<lambda>p. fst (snd p)) (filter (\<lambda>(j, x). j \<noteq> n) (enumerate 0 aks))) = (c', Q)"
      using sc by (simp add: aks others_items others_def)
    from scan_fold[OF _ _ this, of "[d]"] obtain P' where
      P': "fold (scan_other n ?item) (enumerate 0 aks) ([d], P) = (d # c', P')" "set P' = Q"
      by (auto simp: aks)
    have fresh: "''cluster-'' @ show_int (id_num d) \<notin> fst ` set clusters"
    proof
      assume "''cluster-'' @ show_int (id_num d) \<in> fst ` set clusters"
      with Cons.prems obtain j where "j \<in> set P" "''cluster-'' @ show_int (id_num d) = ''cluster-'' @ show_int j"
        by auto
      with False show False by (auto dest: show_int_inj)
    qed
    let ?clusters' = "clusters @ [(''cluster-'' @ show_int (id_num d), d # c')]"
    let ?P'' = "set_add (id_num d) P'"
    have step: "visit_item aks (n, ?item) (clusters, P) = (?clusters', ?P'')"
      using False P'(1) fresh by (simp add: visit_item_def update_fresh)
    have "set P \<subseteq> Q" using sc by (rule spec_scan_mono)
    then have inv: "fst ` set ?clusters' \<subseteq> (\<lambda>i. ''cluster-'' @ show_int i) ` set ?P''"
      using Cons.prems P'(2) by (auto simp: set_set_add)
    have "set ?P'' = insert (id_num d) Q" using P'(2) by (simp add: set_set_add)
    with Cons.IH[OF inv, of "Suc n"] False sc show ?thesis by (simp add: step)
  qed
qed

lemma members_to_clustered: "clusterArticles_f (to_clustered parseDate (k, ms)) = ms"
  by (simp add: to_clustered_def Let_def Article.extend_def ClusteredArticle.fields_def)

lemma size_to_clustered: "clusterSize (to_clustered parseDate (k, ms)) = length ms"
  by (simp add: to_clustered_def Let_def Article.extend_def ClusteredArticle.fields_def)

lemma fastCluster_members:
  "map clusterArticles_f (fastCluster parseDate docs) = spec_clusters docs"
proof -
  let ?aks = "map (\<lambda>a. (a, getKeywords a)) docs"
  obtain clusters P where f: "fold (visit_item ?aks) (enumerate 0 ?aks) ([], []) = (clusters, P)"
    by (cases "fold (visit_item ?aks) (enumerate 0 ?aks) ([], [])") auto
  have "map snd clusters = spec_pass docs {} (enumerate 0 docs)"
    using visit_fold[of ?aks docs "[]" "[]" 0 docs] f by simp
  moreover have "map clusterArticles_f (map (to_clustered parseDate) clusters) = map snd clusters"
    by (induction clusters) (auto simp: members_to_clustered)
  ultimately show ?thesis by (simp add: fastCluster_def Let_def f spec_clusters_def)
qed

lemma fastCluster_sizes:
  "c \<in> set (fastCluster parseDate docs) \<Longrightarrow> clusterSize c = length (clusterArticles_f c)"
proof -
  assume c: "c \<in> set (fastCluster parseDate docs)"
  let ?aks = "map (\<lambda>a. (a, getKeywords a)) docs"
  obtain clusters P where f: "fold (visit_item ?aks) (enumerate 0 ?aks) ([], []) = (clusters, P)"
    by (cases "fold (visit_item ?aks) (enumerate 0 ?aks) ([], [])") auto
  from c f obtain k ms where "c = to_clustered parseDate (k, ms)"
    by (auto simp: fastCluster_def Let_def)
  then show ?thesis by (simp add: members_to_clustered size_to_clustered)
qed



lemma distinct_ids_Cons:
  "distinct (map id_num (x # xs)) \<Longrightarrow> y \<in> set xs \<Longrightarrow> id_num y \<noteq> id_num x"
  by (auto simp: image_iff)

lemma spec_scan_distinct:
  "distinct (map id_num ds) \<Longrightarrow>
   spec_scan seed P ds =
     (filter (\<lambda>d. id_num d \<notin> P \<and> spec_absorbs seed d) ds,
      P \<union> id_num ` set (filter (\<lambda>d. id_num d \<notin> P \<and> spec_absorbs seed d) ds))"
proof (induction ds arbitrary: P)
  case Nil
  then show ?case by simp
next
  case (Cons d ds)
  have fresh: "\<forall>y \<in> set ds. id_num y \<noteq> id_num d" using distinct_ids_Cons[OF Cons.prems] by blast
  then have same: "filter (\<lambda>y. id_num y \<notin> insert (id_num d) P \<and> spec_absorbs seed y) ds
      = filter (\<lambda>y. id_num y \<notin> P \<and> spec_absorbs seed y) ds"
    by (intro filter_cong) auto
  from Cons.prems have "distinct (map id_num ds)" by simp
  from Cons.IH[OF this] same show ?case by auto
qed

lemma filter_enumerate_keep:
  "i < n \<or> n + length xs \<le> i \<Longrightarrow> filter (\<lambda>(j, x). j \<noteq> i) (enumerate n xs) = enumerate n xs"
  by (induction xs arbitrary: n) auto

lemma others_split: "others (length pre) (pre @ x # post) = pre @ post"
proof -
  have "enumerate 0 (pre @ x # post)
      = enumerate 0 pre @ (length pre, x) # enumerate (Suc (length pre)) post"
    by (simp add: enumerate_append_eq)
  then show ?thesis
    by (simp add: others_def filter_enumerate_keep)
qed

lemma spec_pass_step:
  assumes "docs = pre @ x # post" "distinct (map id_num docs)" "id_num ` set pre \<subseteq> P"
    "id_num x \<notin> P"
  shows "spec_pass docs P ((length pre, x) # rest) =
     (x # filter (\<lambda>d. id_num d \<notin> P \<and> spec_absorbs x d) post) #
     spec_pass docs (insert (id_num x) (P \<union> id_num ` set (filter (\<lambda>d. id_num d \<notin> P \<and> spec_absorbs x d) post))) rest"
proof -
  have d: "distinct (map id_num (pre @ post))" using assms(1,2) by auto
  have pre: "filter (\<lambda>d. id_num d \<notin> P \<and> spec_absorbs x d) pre = []"
    using assms(3) by (auto simp: filter_empty_conv)
  show ?thesis using assms(4)
    by (simp add: assms(1) others_split spec_scan_distinct[OF d] pre)
qed

lemma spec_pass_partition:
  "docs = pre @ post \<Longrightarrow> distinct (map id_num docs) \<Longrightarrow> id_num ` set pre \<subseteq> P \<Longrightarrow>
   mset (concat (spec_pass docs P (enumerate (length pre) post)))
     = mset (filter (\<lambda>d. id_num d \<notin> P) post)"
proof (induction post arbitrary: pre P)
  case Nil
  then show ?case by simp
next
  case (Cons x post)
  have docs': "docs = (pre @ [x]) @ post" using Cons.prems(1) by simp
  have len: "Suc (length pre) = length (pre @ [x])" by simp
  show ?case
  proof (cases "id_num x \<in> P")
    case True
    then have "id_num ` set (pre @ [x]) \<subseteq> P" using Cons.prems(3) by auto
    from Cons.IH[OF docs' Cons.prems(2) this] True show ?thesis by simp
  next
    case False
    let ?A = "filter (\<lambda>d. id_num d \<notin> P \<and> spec_absorbs x d) post"
    let ?P' = "insert (id_num x) (P \<union> id_num ` set ?A)"
    have sub: "id_num ` set (pre @ [x]) \<subseteq> ?P'" using Cons.prems(3) by auto
    have dp: "distinct (map id_num (x # post))" using Cons.prems(1,2) by simp
    have "\<And>d. d \<in> set post \<Longrightarrow> (id_num d \<notin> ?P') = (id_num d \<notin> P \<and> \<not> spec_absorbs x d)"
    proof -
      fix d assume d: "d \<in> set post"
      with dp have "id_num d \<noteq> id_num x" by (rule distinct_ids_Cons)
      moreover have "(id_num d \<in> id_num ` set ?A) = (d \<in> set ?A)"
      proof
        assume "id_num d \<in> id_num ` set ?A"
        then obtain e where e: "e \<in> set ?A" "id_num e = id_num d" by auto
        with d dp have "e = d" by (auto simp: distinct_map inj_on_def)
        with e show "d \<in> set ?A" by simp
      qed auto
      ultimately show "(id_num d \<notin> ?P') = (id_num d \<notin> P \<and> \<not> spec_absorbs x d)" using d by auto
    qed
    then have rest: "filter (\<lambda>d. id_num d \<notin> ?P') post = filter (\<lambda>d. id_num d \<notin> P \<and> \<not> spec_absorbs x d) post"
      by (intro filter_cong) auto
    have split: "mset ?A + mset (filter (\<lambda>d. id_num d \<notin> P \<and> \<not> spec_absorbs x d) post)
        = mset (filter (\<lambda>d. id_num d \<notin> P) post)"
      by (induction post) auto
    have step: "spec_pass docs P (enumerate (length pre) (x # post))
        = (x # ?A) # spec_pass docs ?P' (enumerate (Suc (length pre)) post)"
      using spec_pass_step[OF Cons.prems(1,2,3) False] by simp
    have ih: "mset (concat (spec_pass docs ?P' (enumerate (Suc (length pre)) post)))
        = mset (filter (\<lambda>d. id_num d \<notin> ?P') post)"
      using Cons.IH[OF docs' Cons.prems(2) sub] by (simp only: len)
    have "mset (concat (spec_pass docs P (enumerate (length pre) (x # post))))
        = mset (x # ?A) + mset (filter (\<lambda>d. id_num d \<notin> ?P') post)"
      by (simp only: step concat.simps mset_append ih)
    also have "\<dots> = {#x#} + (mset ?A + mset (filter (\<lambda>d. id_num d \<notin> P \<and> \<not> spec_absorbs x d) post))"
      by (simp only: rest) simp
    also have "\<dots> = {#x#} + mset (filter (\<lambda>d. id_num d \<notin> P) post)"
      by (simp only: split)
    also have "\<dots> = mset (filter (\<lambda>d. id_num d \<notin> P) (x # post))"
      using False by simp
    finally show ?thesis .
  qed
qed

lemma spec_similarity_sym: "spec_similarity A B = spec_similarity B A"
proof -
  have "max (card A) (max (card B) 1) = max (card B) (max (card A) 1)" by simp
  then show ?thesis by (simp only: spec_similarity_def Int_commute[of A B])
qed

lemma spec_absorbs_sym: "spec_absorbs a b = spec_absorbs b a"
proof -
  have "spec_similarity (set (getKeywords a)) (set (getKeywords b))
      = spec_similarity (set (getKeywords b)) (set (getKeywords a))"
    by (rule spec_similarity_sym)
  then show ?thesis unfolding spec_absorbs_def Let_def by auto
qed

lemma spec_pass_singleton:
  "docs = pre @ post \<Longrightarrow> distinct (map id_num docs) \<Longrightarrow> id_num ` set pre \<subseteq> P \<Longrightarrow>
   d \<in> set post \<Longrightarrow> id_num d \<notin> P \<Longrightarrow> \<forall>y \<in> set docs. y \<noteq> d \<longrightarrow> \<not> spec_absorbs y d \<Longrightarrow>
   [d] \<in> set (spec_pass docs P (enumerate (length pre) post))"
proof (induction post arbitrary: pre P)
  case Nil
  then show ?case by simp
next
  case (Cons x post)
  have docs': "docs = (pre @ [x]) @ post" using Cons.prems(1) by simp
  have dp: "distinct (map id_num (x # post))" using Cons.prems(1,2) by simp
  show ?case
  proof (cases "x = d")
    case True
    have "filter (\<lambda>y. id_num y \<notin> P \<and> spec_absorbs d y) post = []"
    proof -
      have "\<forall>y \<in> set post. \<not> spec_absorbs d y"
      proof
        fix y assume y: "y \<in> set post"
        with dp True have "y \<noteq> d" by auto
        moreover from y Cons.prems(1) have "y \<in> set docs" by simp
        ultimately show "\<not> spec_absorbs d y" using Cons.prems(6) spec_absorbs_sym by blast
      qed
      then show ?thesis by (auto simp: filter_empty_conv)
    qed
    with spec_pass_step[OF Cons.prems(1,2,3), of "enumerate (Suc (length pre)) post"] True Cons.prems(5)
    show ?thesis by simp
  next
    case False
    with Cons.prems(4) have dpost: "d \<in> set post" by simp
    show ?thesis
    proof (cases "id_num x \<in> P")
      case True
      then have "id_num ` set (pre @ [x]) \<subseteq> P" using Cons.prems(3) by auto
      from Cons.IH[OF docs' Cons.prems(2) this dpost Cons.prems(5,6)] True show ?thesis by simp
    next
      case nx: False
      let ?A = "filter (\<lambda>d. id_num d \<notin> P \<and> spec_absorbs x d) post"
      let ?P' = "insert (id_num x) (P \<union> id_num ` set ?A)"
      have sub: "id_num ` set (pre @ [x]) \<subseteq> ?P'" using Cons.prems(3) by auto
      have "x \<in> set docs" using Cons.prems(1) by simp
      with False Cons.prems(6) have na: "\<not> spec_absorbs x d" by blast
      have "id_num d \<noteq> id_num x" using dp dpost by (rule distinct_ids_Cons)
      moreover have "id_num d \<notin> id_num ` set ?A"
      proof
        assume "id_num d \<in> id_num ` set ?A"
        then obtain e where e: "e \<in> set ?A" "id_num e = id_num d" by auto
        with dpost dp have "e = d" by (auto simp: distinct_map inj_on_def)
        with e na show False by simp
      qed
      ultimately have "id_num d \<notin> ?P'" using Cons.prems(5) by simp
      from Cons.IH[OF docs' Cons.prems(2) sub dpost this Cons.prems(6)]
        spec_pass_step[OF Cons.prems(1,2,3) nx, of "enumerate (Suc (length pre)) post"]
      show ?thesis by simp
    qed
  qed
qed



lemma kw1: "getKeywords doc1 = [''artificial'', ''intelligence'']" by code_simp
lemma kw2: "getKeywords doc2 = [''artificial'', ''intelligence'', ''launch'']" by code_simp
lemma kw3: "getKeywords doc3 = [''sports'', ''championship'', ''result'']" by code_simp

lemma na13: "\<not> spec_absorbs doc1 doc3"
  by (simp add: spec_absorbs_def spec_similarity_def kw1 kw3)
lemma na23: "\<not> spec_absorbs doc2 doc3"
  by (simp add: spec_absorbs_def spec_similarity_def kw2 kw3)


section \<open>Topic discovery: candidates and their support\<close>


lemma set_update_subset: "set (AList.update k v al) \<subseteq> insert (k, v) (set al)"
  by (induction al) auto

lemma keys_update: "fst ` set (AList.update k v al) = insert k (fst ` set al)"
  by (induction al) auto

lemma kf_okD: "kf_ok S kf \<Longrightarrow> (k, s) \<in> set kf \<Longrightarrow> distinct s \<and> set s \<subseteq> S"
proof -
  assume "kf_ok S kf" "(k, s) \<in> set kf"
  then have "distinct (snd (k, s)) \<and> set (snd (k, s)) \<subseteq> S" unfolding kf_ok_def by blast
  then show ?thesis by simp
qed

lemma freq_add_ok: "kf_ok S kf \<Longrightarrow> a \<in> S \<Longrightarrow> kf_ok S (freq_add k a kf)"
proof -
  assume ok: "kf_ok S kf" and a: "a \<in> S"
  have d: "\<And>v. distinct (map fst (AList.update k v kf))"
    using ok by (simp add: kf_ok_def distinct_update)
  show ?thesis
  proof (cases "map_of kf k")
    case None
    have "\<forall>p \<in> set (AList.update k [a] kf). distinct (snd p) \<and> set (snd p) \<subseteq> S"
      using set_update_subset[of k "[a]" kf] ok a by (fastforce simp: kf_ok_def)
    with None d show ?thesis by (simp add: freq_add_def kf_ok_def set_add_def)
  next
    case (Some s)
    then have "(k, s) \<in> set kf" by (rule map_of_SomeD)
    with ok have s: "distinct s" "set s \<subseteq> S" using kf_okD by blast+
    have "\<forall>p \<in> set (AList.update k (set_add a s) kf). distinct (snd p) \<and> set (snd p) \<subseteq> S"
      using set_update_subset[of k "set_add a s" kf] ok a s
      by (fastforce simp: kf_ok_def distinct_set_add set_set_add)
    with Some d show ?thesis by (simp add: freq_add_def kf_ok_def)
  qed
qed

lemma freq_fold_ok:
  "kf_ok S kf \<Longrightarrow> a \<in> S \<Longrightarrow> kf_ok S (fold (\<lambda>keyword kf. freq_add keyword a kf) ks kf)"
  by (induction ks arbitrary: kf) (auto simp: freq_add_ok)

lemma freq_all_ok:
  "kf_ok S kf \<Longrightarrow> fst ` set aks \<subseteq> S \<Longrightarrow>
   kf_ok S (fold (\<lambda>(article, keywords) kf. fold (\<lambda>keyword kf. freq_add keyword article kf) keywords kf) aks kf)"
proof (induction aks arbitrary: kf)
  case Nil
  then show ?case by simp
next
  case (Cons p aks)
  obtain a ks where p: "p = (a, ks)" by (cases p)
  with Cons.prems have "kf_ok S (fold (\<lambda>keyword kf. freq_add keyword a kf) ks kf)"
    by (auto intro: freq_fold_ok)
  with Cons.IH[OF this] Cons.prems(2) p show ?case by simp
qed

lemma article_keys:
  "fst ` set (fold (\<lambda>article m. AList.update article (f article) m) arts m0) = set arts \<union> fst ` set m0"
  by (induction arts arbitrary: m0) (auto simp: keys_update)

lemma discoverTopics_shape:
  "\<exists>aks kf. kf_ok (set arts) kf \<and>
     discoverTopics ek h arts m =
       map (make_topic aks) (take 20 (sort_key (\<lambda>(keyword, arts). - int (length arts))
          (filter (\<lambda>(keyword, arts). int (length arts) \<ge> m) kf)))"
proof (cases "arts = []")
  case True
  have "kf_ok (set arts) []" by (simp add: kf_ok_def)
  moreover have "discoverTopics ek h arts m = []" using True by (simp add: discoverTopics_def)
  ultimately show ?thesis by fastforce
next
  case False
  let ?aks = "fold (\<lambda>article m. AList.update article
                 (map toLowerCase (ek (content (h article)) (map (\<lambda>a. content (h a)) arts) 10)) m) arts []"
  let ?kf = "fold (\<lambda>(article, keywords) kf. fold (\<lambda>keyword kf. freq_add keyword article kf) keywords kf) ?aks []"
  have "fst ` set ?aks \<subseteq> set arts" by (simp add: article_keys)
  moreover have "kf_ok (set arts) []" by (simp add: kf_ok_def)
  ultimately have "kf_ok (set arts) ?kf" by (intro freq_all_ok)
  moreover have "discoverTopics ek h arts m = map (make_topic ?aks) (take 20 (sort_key (\<lambda>(keyword, arts). - int (length arts))
          (filter (\<lambda>(keyword, arts). int (length arts) \<ge> m) ?kf)))"
    using False by (simp add: discoverTopics_def Let_def)
  ultimately show ?thesis by blast
qed


lemma count_make_topic: "count_t (make_topic aks p) = length (snd p)"
  by (cases p) (simp add: make_topic_def Let_def)

lemma articles_make_topic: "articles_t (make_topic aks p) = snd p"
  by (cases p) (simp add: make_topic_def Let_def)

lemma trend_make_topic: "trend (make_topic aks p) = stable \<and> velocity (make_topic aks p) = 0"
  by (cases p) (simp add: make_topic_def Let_def)

lemma discoverTopics_support:
  assumes "t \<in> set (discoverTopics ek h arts m)"
  shows "int (count_t t) \<ge> m \<and> count_t t = length (articles_t t) \<and> distinct (articles_t t)
     \<and> set (articles_t t) \<subseteq> set arts"
proof -
  from discoverTopics_shape[of arts ek h m] obtain aks kf where
    ok: "kf_ok (set arts) kf" and
    eq: "discoverTopics ek h arts m = map (make_topic aks) (take 20 (sort_key (\<lambda>(keyword, arts). - int (length arts))
          (filter (\<lambda>(keyword, arts). int (length arts) \<ge> m) kf)))" by blast
  from assms eq obtain p where
    p: "p \<in> set (take 20 (sort_key (\<lambda>(keyword, arts). - int (length arts))
          (filter (\<lambda>(keyword, arts). int (length arts) \<ge> m) kf)))" and t: "t = make_topic aks p"
    by auto
  from p have "p \<in> set (filter (\<lambda>(keyword, arts). int (length arts) \<ge> m) kf)"
    by (auto dest: in_set_takeD)
  then have "p \<in> set kf" "int (length (snd p)) \<ge> m" by (auto simp: case_prod_beta)
  with ok have "distinct (snd p)" "set (snd p) \<subseteq> set arts" by (simp_all add: kf_ok_def)
  with \<open>int (length (snd p)) \<ge> m\<close> t show ?thesis
    by (simp add: count_make_topic articles_make_topic)
qed


lemma discoverTopics_small:
  assumes "int (length arts) < m"
  shows "discoverTopics ek h arts m = []"
proof (rule ccontr)
  assume "discoverTopics ek h arts m \<noteq> []"
  then obtain t where t: "t \<in> set (discoverTopics ek h arts m)"
    by (cases "discoverTopics ek h arts m") auto
  from discoverTopics_support[OF t] have m: "int (length (articles_t t)) \<ge> m"
    and d: "distinct (articles_t t)" and s: "set (articles_t t) \<subseteq> set arts" by auto
  from d have "length (articles_t t) = card (set (articles_t t))" by (simp add: distinct_card)
  also have "\<dots> \<le> card (set arts)" using s by (simp add: card_mono)
  also have "\<dots> \<le> length arts" by (rule card_length)
  finally show False using m assms by simp
qed








lemma enrich_no_trends: "enrich [] tp = tp\<lparr>trend := stable, velocity := 0\<rparr>"
  by (simp add: enrich_def)




section \<open>Rounding to a double never crosses a double\<close>

lemma expo_bounds:
  assumes "0 < a"
  shows "2 powi (expo a) \<le> a \<and> a < 2 powi (expo a + 1)"
proof (cases "1 \<le> a")
  case True
  define n where "n = nat \<lfloor>a\<rfloor>"
  define L where "L = floorlog 2 n"
  from True have n1: "1 \<le> n" by (simp add: n_def le_nat_iff)
  have rn: "real n \<le> a" "a < real n + 1" using True by (simp_all add: n_def)
  from floorlog_bounds[of n 2] n1 have b: "2 ^ (L - 1) \<le> n" "n < 2 ^ L" by (simp_all add: L_def)
  from b(2) have L1: "1 \<le> L" by (cases L) (use n1 in auto)
  have e: "expo a = int (L - 1)" using True L1 by (simp add: expo_def n_def L_def)
  have e1: "expo a + 1 = int L" using e L1 by simp
  have "(2::real) ^ (L - 1) \<le> real n" using b(1) by (metis of_nat_le_iff of_nat_numeral of_nat_power)
  moreover have "2 powi (expo a) = (2::real) ^ (L - 1)" by (simp only: e power_int_of_nat)
  ultimately have lo: "2 powi (expo a) \<le> a" using rn(1) by linarith
  from b(2) have "n + 1 \<le> 2 ^ L" by simp
  then have "real n + 1 \<le> 2 ^ L" by (metis of_nat_le_iff of_nat_numeral of_nat_power of_nat_Suc Suc_eq_plus1 add.commute)
  moreover have "2 powi (expo a + 1) = (2::real) ^ L" by (simp only: e1 power_int_of_nat)
  ultimately have hi: "a < 2 powi (expo a + 1)" using rn(2) by linarith
  from lo hi show ?thesis by simp
next
  case False
  define b where "b = 1 / a"
  define c where "c = \<lceil>b\<rceil>"
  define n where "n = nat (c - 1)"
  define L where "L = floorlog 2 n"
  from False assms have b1: "1 < b" by (simp add: b_def)
  then have c2: "2 \<le> c" unfolding c_def by linarith
  then have n1: "1 \<le> n" by (simp add: n_def)
  have rn: "real n < b" "b \<le> real n + 1" using c2 unfolding n_def c_def by linarith+
  from floorlog_bounds[of n 2] n1 have bb: "2 ^ (L - 1) \<le> n" "n < 2 ^ L" by (simp_all add: L_def)
  from bb(2) have L1: "1 \<le> L" by (cases L) (use n1 in auto)
  have e: "expo a = - int L" using False by (simp add: expo_def L_def n_def c_def b_def)
  have "(2::real) ^ (L - 1) \<le> real n" using bb(1) by (metis of_nat_le_iff of_nat_numeral of_nat_power)
  with rn(1) have lob: "2 ^ (L - 1) < b" by linarith
  from bb(2) have "n + 1 \<le> 2 ^ L" by simp
  then have "real n + 1 \<le> 2 ^ L" by (metis of_nat_le_iff of_nat_numeral of_nat_power of_nat_Suc Suc_eq_plus1 add.commute)
  with rn(2) have hib: "b \<le> 2 ^ L" by linarith
  have a: "a = 1 / b" using assms by (simp add: b_def)
  have p1: "2 powi (- int L) = 1 / (2::real) ^ L" by (simp add: power_int_minus field_simps)
  have "- int L + 1 = - int (L - 1)" using L1 by simp
  then have p2: "2 powi (- int L + 1) = 1 / (2::real) ^ (L - 1)"
    by (simp only: power_int_minus power_int_of_nat) (simp add: field_simps)
  from hib b1 have "1 / (2::real) ^ L \<le> 1 / b" by (simp add: frac_le)
  then have lo: "1 / (2::real) ^ L \<le> a" by (simp only: a)
  from lob have "1 / b < 1 / (2::real) ^ (L - 1)" by (simp add: frac_less2)
  then have hi: "a < 1 / (2::real) ^ (L - 1)" by (simp only: a)
  have q1: "2 powi (expo a) = 1 / (2::real) ^ L" by (simp only: e p1)
  have q2: "2 powi (expo a + 1) = 1 / (2::real) ^ (L - 1)" by (simp only: e p2)
  show ?thesis unfolding q1 q2 using lo hi by blast
qed

lemma powi2_less_imp: "(2::real) powi m < 2 powi n \<Longrightarrow> m < n"
proof (rule ccontr)
  assume l: "(2::real) powi m < 2 powi n" and "\<not> m < n"
  then have "n \<le> m" by simp
  then have "(2::real) powi n \<le> 2 powi m" by (intro power_int_increasing) simp_all
  with l show False by simp
qed

lemma expo_mono: "0 < x \<Longrightarrow> x \<le> y \<Longrightarrow> expo x \<le> expo y"
proof -
  assume x: "0 < x" and xy: "x \<le> y"
  from expo_bounds[OF x] have "2 powi (expo x) \<le> x" by simp
  moreover from expo_bounds[of y] x xy have "y < 2 powi (expo y + 1)" by simp
  ultimately have "(2::real) powi (expo x) < 2 powi (expo y + 1)" using xy by linarith
  then have "expo x < expo y + 1" by (rule powi2_less_imp)
  then show ?thesis by simp
qed

lemma round_even_ge: "of_int N \<le> t \<Longrightarrow> N \<le> round_even t"
proof -
  assume "of_int N \<le> t"
  then have "N \<le> \<lfloor>t\<rfloor>" by (simp add: le_floor_iff)
  then show ?thesis by (simp add: round_even_def Let_def)
qed

lemma round_even_le: "t \<le> of_int N \<Longrightarrow> round_even t \<le> N"
proof (cases "t = of_int N")
  case True
  then show ?thesis by (simp add: round_even_def Let_def)
next
  case False
  assume "t \<le> of_int N"
  with False have "t < of_int N" by simp
  then have "\<lfloor>t\<rfloor> < N" by (simp add: floor_less_iff)
  then show ?thesis by (simp add: round_even_def Let_def)
qed

lemma fl_pos: "0 < x \<Longrightarrow> fl x = of_int (round_even (x / 2 powi ulp_exp x)) * 2 powi ulp_exp x"
  by (simp add: fl_def)

lemma fl_nonneg: "0 \<le> x \<Longrightarrow> 0 \<le> fl x"
proof (cases "x = 0")
  case True
  then show ?thesis by (simp add: fl_def)
next
  case False
  assume "0 \<le> x"
  with False have x: "0 < x" by simp
  then have "of_int 0 \<le> x / 2 powi ulp_exp x" by simp
  then have "0 \<le> round_even (x / 2 powi ulp_exp x)" by (rule round_even_ge)
  with x show ?thesis by (simp add: fl_pos)
qed

lemma fl_nonpos: "x \<le> 0 \<Longrightarrow> fl x \<le> 0"
proof (cases "x = 0")
  case True
  then show ?thesis by (simp add: fl_def)
next
  case False
  assume "x \<le> 0"
  with False have x: "x < 0" by simp
  have "of_int 0 \<le> \<bar>x\<bar> / 2 powi ulp_exp \<bar>x\<bar>" by (simp add: zero_le_divide_iff)
  then have "0 \<le> round_even (\<bar>x\<bar> / 2 powi ulp_exp \<bar>x\<bar>)" by (rule round_even_ge)
  with x show ?thesis by (simp add: fl_def mult_nonneg_nonneg)
qed

lemma ulp_exp_mono: "0 < x \<Longrightarrow> x \<le> y \<Longrightarrow> ulp_exp x \<le> ulp_exp y"
  using expo_mono[of x y] by (simp add: ulp_exp_def)

lemma fl_le_double:
  assumes d: "0 < d" "fl d = d" and xd: "x \<le> d"
  shows "fl x \<le> d"
proof (cases "0 < x")
  case False
  then have "fl x \<le> 0" by (intro fl_nonpos) simp
  with d show ?thesis by simp
next
  case True
  define N where "N = round_even (d / 2 powi ulp_exp d)"
  have dN: "d = of_int N * 2 powi ulp_exp d" using d by (simp add: fl_pos N_def)
  have u: "ulp_exp x \<le> ulp_exp d" using True xd by (rule ulp_exp_mono)
  define k where "k = nat (ulp_exp d - ulp_exp x)"
  have "ulp_exp d = ulp_exp x + int k" using u by (simp add: k_def)
  then have "(2::real) powi ulp_exp d = 2 powi ulp_exp x * 2 ^ k"
    by (simp add: power_int_add)
  with dN have dM: "d = of_int (N * 2 ^ k) * 2 powi ulp_exp x" by simp
  then have "d / 2 powi ulp_exp x = of_int (N * 2 ^ k)" by simp
  moreover have "x / 2 powi ulp_exp x \<le> d / 2 powi ulp_exp x"
    using xd by (simp add: divide_right_mono)
  ultimately have "round_even (x / 2 powi ulp_exp x) \<le> N * 2 ^ k"
    by (intro round_even_le) simp
  then have "(of_int (round_even (x / 2 powi ulp_exp x)) :: real) \<le> of_int (N * 2 ^ k)"
    by (simp only: of_int_le_iff)
  then have "of_int (round_even (x / 2 powi ulp_exp x)) * 2 powi ulp_exp x
      \<le> of_int (N * 2 ^ k) * (2::real) powi ulp_exp x"
    by (intro mult_right_mono) simp_all
  with True dM show ?thesis by (simp only: fl_pos)
qed

lemma fl_ge_double:
  assumes d: "0 < d" "fl d = d" and xd: "d \<le> x"
  shows "d \<le> fl x"
proof -
  from d xd have x: "0 < x" by simp
  define N where "N = round_even (d / 2 powi ulp_exp d)"
  have dN: "d = of_int N * 2 powi ulp_exp d" using d by (simp add: fl_pos N_def)
  have u: "ulp_exp d \<le> ulp_exp x" using d(1) xd by (rule ulp_exp_mono)
  show ?thesis
  proof (cases "ulp_exp x = ulp_exp d")
    case True
    have "(2::real) powi ulp_exp d \<noteq> 0" by simp
    with dN have "d / 2 powi ulp_exp d = of_int N" by (metis nonzero_mult_div_cancel_right)
    then have "d / 2 powi ulp_exp x = of_int N" by (simp only: True)
    moreover have "d / 2 powi ulp_exp x \<le> x / 2 powi ulp_exp x"
      using xd by (simp add: divide_right_mono)
    ultimately have "N \<le> round_even (x / 2 powi ulp_exp x)"
      by (intro round_even_ge) simp
    then have "(of_int N :: real) \<le> of_int (round_even (x / 2 powi ulp_exp x))"
      by (simp only: of_int_le_iff)
    then have "of_int N * (2::real) powi ulp_exp x
        \<le> of_int (round_even (x / 2 powi ulp_exp x)) * 2 powi ulp_exp x"
      by (intro mult_right_mono) simp_all
    with x dN True show ?thesis by (simp only: fl_pos)
  next
    case False
    with u have gt: "ulp_exp d < ulp_exp x" by simp
    then have ux: "ulp_exp x = expo x - 52" by (auto simp: ulp_exp_def max_def split: if_splits)
    from gt have "expo d - 52 < expo x - 52" unfolding ux by (simp add: ulp_exp_def)
    then have ex: "expo d + 1 \<le> expo x" by simp
    from expo_bounds[OF x] have lo: "2 powi (expo x) \<le> x" by simp
    have "(2::real) powi (expo x) = 2 powi ulp_exp x * 2 ^ 52"
      by (simp add: ux power_int_diff)
    then have p: "(2::real) powi (expo x) = of_int (2 ^ 52) * 2 powi ulp_exp x" by simp
    then have "of_int (2 ^ 52) = (2::real) powi (expo x) / 2 powi ulp_exp x" by simp
    also have "\<dots> \<le> x / 2 powi ulp_exp x" using lo by (simp add: divide_right_mono)
    finally have "2 ^ 52 \<le> round_even (x / 2 powi ulp_exp x)" by (rule round_even_ge)
    then have "(of_int (2 ^ 52) :: real) \<le> of_int (round_even (x / 2 powi ulp_exp x))"
      by (simp only: of_int_le_iff)
    then have "of_int (2 ^ 52) * (2::real) powi ulp_exp x
        \<le> of_int (round_even (x / 2 powi ulp_exp x)) * 2 powi ulp_exp x"
      by (intro mult_right_mono) simp_all
    with x p have "2 powi (expo x) \<le> fl x" by (simp only: fl_pos)
    moreover have "(2::real) powi (expo d + 1) \<le> 2 powi (expo x)"
      using ex by (intro power_int_increasing) simp_all
    moreover from expo_bounds[OF d(1)] have "d < 2 powi (expo d + 1)" by simp
    ultimately show ?thesis by linarith
  qed
qed


lemma dadd_nonneg: "0 \<le> p \<Longrightarrow> 0 \<le> c \<Longrightarrow> 0 \<le> dadd p c"
  by (simp add: dadd_def fl_nonneg)

lemma dadd_ge_double: "0 < d \<Longrightarrow> fl d = d \<Longrightarrow> d \<le> p \<Longrightarrow> 0 \<le> c \<Longrightarrow> d \<le> dadd p c"
  unfolding dadd_def by (rule fl_ge_double) simp_all

lemma funpow_dadd_nonneg: "0 \<le> p \<Longrightarrow> 0 \<le> c \<Longrightarrow> 0 \<le> ((\<lambda>p. dadd p c) ^^ n) p"
  by (induction n) (simp_all add: dadd_nonneg)

lemma funpow_dadd_ge:
  "0 < d \<Longrightarrow> fl d = d \<Longrightarrow> d \<le> p \<Longrightarrow> 0 \<le> c \<Longrightarrow> d \<le> ((\<lambda>p. dadd p c) ^^ n) p"
  by (induction n) (simp_all add: dadd_ge_double)

lemma funpow_dadd_shift:
  "((\<lambda>p. dadd p c) ^^ n) (dadd p c) = dadd (((\<lambda>p. dadd p c) ^^ n) p) c"
  using funpow_swap1[of "\<lambda>p. dadd p c" n p] by simp

text \<open>The decimal literals of the ambiguity detection as doubles.\<close>

lemma lit02: "0 < lit_0_2" "fl lit_0_2 = lit_0_2" "2 / 10 \<le> lit_0_2"
  by code_simp+

lemma lit01: "0 < lit_0_1" "1 / 10 \<le> lit_0_1" "lit_0_1 \<le> 1" "1 \<le> lit_0_1 * 10"
  by code_simp+

lemma lit015: "0 < lit_0_15"
  by code_simp

lemma lit08: "0 < lit_0_8" "fl lit_0_8 = lit_0_8" "1 - lit_0_2 \<le> lit_0_8" "lit_0_1 \<le> lit_0_8"
  by code_simp+

lemma lit1: "fl 1 = 1" "fl 10 = 10"
  by code_simp+

section \<open>Ambiguity detection in closed form\<close>

declare replace_gi.simps [simp del]

lemma entity_fold:
  "fold (entity_step q lq) ents (ts, os, ss, p) =
     (ts @ map fst (filter (\<lambda>(term, termOptions). str_includes lq term) ents),
      os @ concat (map snd (filter (\<lambda>(term, termOptions). str_includes lq term) ents)),
      ss @ concat (map (\<lambda>(term, termOptions). map (\<lambda>opt. replace_gi term (first_word (label opt)) q) termOptions)
                    (filter (\<lambda>(term, termOptions). str_includes lq term) ents)),
      ((\<lambda>p. dadd p lit_0_2) ^^ length (filter (\<lambda>(term, termOptions). str_includes lq term) ents)) p)"
proof (induction ents arbitrary: ts os ss p)
  case Nil
  then show ?case by simp
next
  case (Cons e ents)
  obtain t to where e: "e = (t, to)" by (cases e)
  show ?case
  proof (cases "str_includes lq t")
    case True
    then have "entity_step q lq e (ts, os, ss, p) =
        (ts @ [t], os @ to, ss @ map (\<lambda>opt. replace_gi t (first_word (label opt)) q) to,
         dadd p lit_0_2)"
      by (simp add: entity_step_def e)
    with Cons.IH True e show ?thesis by (simp add: funpow_dadd_shift)
  next
    case False
    then have "entity_step q lq e (ts, os, ss, p) = (ts, os, ss, p)"
      by (simp add: entity_step_def e)
    with Cons.IH False e show ?thesis by simp
  qed
qed

lemma vague_fold:
  "fold (vague_step words) vs (ts, p) =
     (ts @ filter (\<lambda>term. term \<in> set words) vs,
      ((\<lambda>p. dadd p lit_0_1) ^^ length (filter (\<lambda>term. term \<in> set words) vs)) p)"
proof (induction vs arbitrary: ts p)
  case Nil
  then show ?case by simp
next
  case (Cons v vs)
  show ?case
  proof (cases "v \<in> set words")
    case True
    then have "vague_step words v (ts, p) = (ts @ [v], dadd p lit_0_1)"
      by (simp add: vague_step_def)
    with Cons.IH True show ?thesis by (simp add: funpow_dadd_shift)
  next
    case False
    then have "vague_step words v (ts, p) = (ts, p)" by (simp add: vague_step_def)
    with Cons.IH False show ?thesis by simp
  qed
qed

lemma detectAmbiguity_closed:
  "detectAmbiguity query articles =
     \<lparr>isAmbiguous = max lit_0_1 (dsub 1 (total_penalty query)) < lit_0_7,
      confidence = max lit_0_1 (dsub 1 (total_penalty query)),
      clarityScore = Math_round (dmul (max lit_0_1 (dsub 1 (total_penalty query))) 10),
      options = concat (map snd (entity_hits (toLowerCase query))),
      suggestions = take 3 (new_Set (entity_suggestions query @ category_suggestion query)),
      ambiguousTerms = map fst (entity_hits (toLowerCase query))
                       @ vague_hits (split_runs is_space_char (toLowerCase query))\<rparr>"
  by (simp add: detectAmbiguity_def Let_def entity_fold vague_fold total_penalty_def
      entity_hits_def vague_hits_def entity_suggestions_def category_suggestion_def)

lemma confidence_closed:
  "confidence (detectAmbiguity query articles) = max lit_0_1 (dsub 1 (total_penalty query))"
  by (simp add: detectAmbiguity_closed)

lemma clarityScore_closed:
  "clarityScore (detectAmbiguity query articles)
     = Math_round (dmul (max lit_0_1 (dsub 1 (total_penalty query))) 10)"
  by (simp add: detectAmbiguity_closed)

lemma suggestions_closed:
  "suggestions (detectAmbiguity query articles)
     = take 3 (new_Set (entity_suggestions query @ category_suggestion query))"
  by (simp add: detectAmbiguity_closed)

lemma ambiguousTerms_closed:
  "ambiguousTerms (detectAmbiguity query articles)
     = map fst (entity_hits (toLowerCase query))
       @ vague_hits (split_runs is_space_char (toLowerCase query))"
  by (simp add: detectAmbiguity_closed)

lemma options_closed:
  "options (detectAmbiguity query articles) = concat (map snd (entity_hits (toLowerCase query)))"
  by (simp add: detectAmbiguity_closed)

lemma total_penalty_nonneg: "0 \<le> total_penalty query"
proof -
  have c: "0 \<le> lit_0_2" "0 \<le> lit_0_1" "0 \<le> lit_0_15"
    using lit02(1) lit01(1) lit015 by simp_all
  have 1: "0 \<le> ((\<lambda>p. dadd p lit_0_2) ^^ n) 0" for n
    by (rule funpow_dadd_nonneg) (simp_all add: c)
  have 2: "0 \<le> ((\<lambda>p. dadd p lit_0_1) ^^ m) (((\<lambda>p. dadd p lit_0_2) ^^ n) 0)" for n m
    by (rule funpow_dadd_nonneg) (simp_all add: c 1)
  show ?thesis
    unfolding total_penalty_def Let_def by (auto intro!: dadd_nonneg 2 c)
qed

lemma total_penalty_entity:
  assumes "entity_hits (toLowerCase query) \<noteq> []"
  shows "lit_0_2 \<le> total_penalty query"
proof -
  let ?d = "lit_0_2"
  have c: "0 \<le> lit_0_2" "0 \<le> lit_0_1" "0 \<le> lit_0_15"
    using lit02(1) lit01(1) lit015 by simp_all
  from assms obtain n where n: "length (entity_hits (toLowerCase query)) = Suc n"
    by (cases "entity_hits (toLowerCase query)") auto
  have "dadd 0 ?d = ?d" by (simp add: dadd_def lit02(2))
  then have "((\<lambda>p. dadd p ?d) ^^ Suc n) 0 = ((\<lambda>p. dadd p ?d) ^^ n) ?d"
    using funpow_dadd_shift[where c="?d" and n=n and p=0] by simp
  moreover have "?d \<le> ((\<lambda>p. dadd p ?d) ^^ n) ?d"
    by (rule funpow_dadd_ge) (simp_all add: lit02 c)
  ultimately have 1: "?d \<le> ((\<lambda>p. dadd p ?d) ^^ length (entity_hits (toLowerCase query))) 0"
    by (simp only: n)
  have 2: "?d \<le> ((\<lambda>p. dadd p lit_0_1) ^^ m)
      (((\<lambda>p. dadd p ?d) ^^ length (entity_hits (toLowerCase query))) 0)" for m
    by (rule funpow_dadd_ge) (simp_all add: lit02 c 1)
  show ?thesis
    unfolding total_penalty_def Let_def
    by (auto intro!: dadd_ge_double 2 c lit02)
qed

lemma str_includes_map: "str_includes s t \<Longrightarrow> str_includes (map f s) (map f t)"
proof (induction s)
  case Nil
  then show ?case by simp
next
  case (Cons c cs)
  from Cons.prems have "prefix t (c # cs) \<or> str_includes cs t" by simp
  then show ?case
  proof
    assume "prefix t (c # cs)"
    then have "prefix (map f t) (map f (c # cs))" by (rule map_mono_prefix)
    then show ?thesis by simp
  next
    assume "str_includes cs t"
    then have "str_includes (map f cs) (map f t)" by (rule Cons.IH)
    then show ?thesis by simp
  qed
qed

lemma entity_terms_lower: "(t, topts) \<in> set AMBIGUOUS_ENTITIES \<Longrightarrow> toLowerCase t = t"
proof -
  have "list_all (\<lambda>(t, topts). toLowerCase t = t) AMBIGUOUS_ENTITIES" by code_simp
  then show "(t, topts) \<in> set AMBIGUOUS_ENTITIES \<Longrightarrow> toLowerCase t = t"
    by (auto simp: list_all_iff)
qed

lemma entity_term_in_lower:
  assumes "(t, topts) \<in> set AMBIGUOUS_ENTITIES" "str_includes query t"
  shows "str_includes (toLowerCase query) t"
proof -
  from assms(2) have "str_includes (toLowerCase query) (toLowerCase t)"
    unfolding toLowerCase_def by (rule str_includes_map)
  with entity_terms_lower[OF assms(1)] show ?thesis by simp
qed

section \<open>Properties stated by the specification\<close>

text \<open>
  C1 (as amended). For documents with pairwise-distinct ids the clusters of
  \<open>clusterArticles\<close> partition the input: every document is a member of exactly one
  cluster, exactly once; the reported size of a cluster is the length of its member list; and
  a document that meets the absorption criterion with no other document of the collection
  forms a singleton cluster of size 1.
\<close>

theorem clusterArticles_partition:
  "distinct (map id_num docs) \<Longrightarrow>
     mset (concat (map clusterArticles_f (clusterArticles parseDate docs))) = mset docs \<and>
     (\<forall>c \<in> set (clusterArticles parseDate docs). clusterSize c = length (clusterArticles_f c)) \<and>
     (\<forall>d \<in> set docs. (\<forall>y \<in> set docs. y \<noteq> d \<longrightarrow> \<not> spec_absorbs y d) \<longrightarrow>
        forms_singleton d (clusterArticles parseDate docs))"
proof -
  assume dist: "distinct (map id_num docs)"
  have m: "map clusterArticles_f (clusterArticles parseDate docs) = spec_clusters docs"
    by (cases docs) (simp_all add: clusterArticles_def fastCluster_members spec_clusters_def)
  have sz: "\<forall>c \<in> set (clusterArticles parseDate docs). clusterSize c = length (clusterArticles_f c)"
    by (auto simp: clusterArticles_def fastCluster_sizes)
  have part: "mset (concat (spec_clusters docs)) = mset docs"
    using spec_pass_partition[of docs "[]" docs "{}"] dist by (simp add: spec_clusters_def)
  have single: "forms_singleton d (clusterArticles parseDate docs)"
    if d: "d \<in> set docs" and lonely: "\<forall>y \<in> set docs. y \<noteq> d \<longrightarrow> \<not> spec_absorbs y d" for d
  proof -
    have "[d] \<in> set (spec_clusters docs)"
      using spec_pass_singleton[of docs "[]" docs "{}" d] dist d lonely by (simp add: spec_clusters_def)
    with m obtain c where c: "c \<in> set (clusterArticles parseDate docs)" "clusterArticles_f c = [d]"
      by (metis (no_types, lifting) image_iff list.set_map)
    with sz have "clusterSize c = 1" by simp
    with c show ?thesis by (auto simp: forms_singleton_def list_ex_iff)
  qed
  from m part sz single show ?thesis by simp
qed

theorem clusterArticles_partition_witness:
  "distinct (map id_num [doc1, doc2, doc3]) \<and>
   mset (concat (map clusterArticles_f (clusterArticles (\<lambda>_. 0) [doc1, doc2, doc3]))) = mset [doc1, doc2, doc3] \<and>
   forms_singleton doc3 (clusterArticles (\<lambda>_. 0) [doc1, doc2, doc3])"
proof -
  have d: "distinct (map id_num [doc1, doc2, doc3])" by (simp add: doc1_def doc2_def doc3_def)
  have l: "\<forall>y \<in> set [doc1, doc2, doc3]. y \<noteq> doc3 \<longrightarrow> \<not> spec_absorbs y doc3"
    by (simp add: na13 na23)
  from clusterArticles_partition[OF d, of "\<lambda>_. 0"] l d show ?thesis by simp
qed

text \<open>
  The first document of the scenario seeds its cluster, is absorbed by no other cluster, and
  its cluster has two members.
\<close>

theorem clusterArticles_seed_counterexample:
  "distinct (map id_num [doc1, doc2]) \<and>
   \<not> absorbed_elsewhere doc1 (clusterArticles (\<lambda>_. 0) [doc1, doc2]) \<and>
   \<not> forms_singleton doc1 (clusterArticles (\<lambda>_. 0) [doc1, doc2])"
  by code_simp

text \<open>
  C2. The clusters of \<open>clusterArticles\<close> are those of the single greedy pass in input
  order: each unprocessed document seeds a cluster, and a scanned unprocessed document is
  absorbed exactly when its similarity to the seed is at least 0.30, or at least 0.15 with the
  seed's category, the similarity being the size of the intersection of the term sets over
  max(size of A, size of B, 1).
\<close>

theorem clusterArticles_greedy:
  "map clusterArticles_f (clusterArticles parseDate docs) = spec_clusters docs"
  by (cases docs) (simp_all add: clusterArticles_def fastCluster_members spec_clusters_def)


theorem clusterArticles_greedy_witness:
  "map clusterArticles_f (clusterArticles (\<lambda>_. 0) [doc1, doc2, doc3]) = [[doc1, doc2], [doc3]]"
proof -
  have "spec_clusters [doc1, doc2, doc3] = [[doc1, doc2], [doc3]]"
    by code_simp
  with clusterArticles_greedy[of "\<lambda>_. 0" "[doc1, doc2, doc3]"] show ?thesis by simp
qed





text \<open>
  C5. For every query and collection the confidence of \<open>detectAmbiguity\<close>, a double,
  lies in [0.1, 1.0]: it is at least the double 0.1, which is not below 1/10, at most 1, and
  never 0. The clarity score is \<open>Math.round\<close> of the double product
  \<open>confidence * 10\<close>, an integer from 1 to 10.
\<close>

theorem detectAmbiguity_confidence:
  "lit_0_1 \<le> confidence (detectAmbiguity query articles) \<and>
   1 / 10 \<le> confidence (detectAmbiguity query articles) \<and>
   confidence (detectAmbiguity query articles) \<le> 1 \<and>
   confidence (detectAmbiguity query articles) \<noteq> 0 \<and>
   clarityScore (detectAmbiguity query articles)
     = Math_round (dmul (confidence (detectAmbiguity query articles)) 10) \<and>
   1 \<le> clarityScore (detectAmbiguity query articles) \<and>
   clarityScore (detectAmbiguity query articles) \<le> 10"
proof -
  define c where "c = max lit_0_1 (dsub 1 (total_penalty query))"
  have c: "confidence (detectAmbiguity query articles) = c"
    and s: "clarityScore (detectAmbiguity query articles) = Math_round (dmul c 10)"
    by (simp_all add: detectAmbiguity_closed c_def)
  have lo: "lit_0_1 \<le> c" by (simp add: c_def)
  with lit01(2) have lo': "1 / 10 \<le> c" by linarith
  have "1 - total_penalty query \<le> 1" using total_penalty_nonneg[of query] by simp
  then have "fl (1 - total_penalty query) \<le> 1" by (intro fl_le_double lit1) simp_all
  with lit01(3) have hi: "c \<le> 1" by (simp add: c_def dsub_def)
  from lo lit01(4) have "1 \<le> c * 10" by linarith
  then have p1: "1 \<le> fl (c * 10)" by (intro fl_ge_double lit1) simp_all
  from hi have "c * 10 \<le> 10" by simp
  then have p10: "fl (c * 10) \<le> 10" by (intro fl_le_double lit1) simp_all
  have "1 \<le> \<lfloor>fl (c * 10) + 1 / 2\<rfloor>" using p1 by linarith
  moreover have "\<lfloor>fl (c * 10) + 1 / 2\<rfloor> \<le> 10" using p10 by linarith
  ultimately show ?thesis using lo lo' hi by (simp add: c s Math_round_def dmul_def)
qed

theorem detectAmbiguity_confidence_witness:
  "confidence (detectAmbiguity ''apple news'' []) = 4953959590107545 / 9007199254740992 \<and>
   clarityScore (detectAmbiguity ''apple news'' []) = 5 \<and>
   1 / 10 \<le> confidence (detectAmbiguity ''apple news'' []) \<and>
   confidence (detectAmbiguity ''apple news'' []) \<le> 1"
proof -
  have h: "length (entity_hits (toLowerCase ''apple news'')) = 1" by code_simp
  have v: "length (vague_hits (split_runs is_space_char (toLowerCase ''apple news''))) = 1"
    by code_simp
  have w: "length (split_runs is_space_char (toLowerCase ''apple news'')) = 2" by code_simp
  have k: "length (extractCategories (toLowerCase ''apple news'')) = 0" by code_simp
  have p: "total_penalty ''apple news'' = dadd (dadd (dadd 0 lit_0_2) lit_0_1) lit_0_15"
    by (simp add: total_penalty_def Let_def h v w k)
  have p': "dadd (dadd (dadd 0 lit_0_2) lit_0_1) lit_0_15 = 4053239664633447 / 9007199254740992"
    by code_simp
  have c: "max lit_0_1 (dsub 1 (4053239664633447 / 9007199254740992))
      = 4953959590107545 / 9007199254740992" by code_simp
  have s: "Math_round (dmul (4953959590107545 / 9007199254740992) 10) = 5" by code_simp
  have conf: "confidence (detectAmbiguity ''apple news'' []) = 4953959590107545 / 9007199254740992"
    by (simp only: confidence_closed p p' c)
  have cl: "clarityScore (detectAmbiguity ''apple news'' []) = 5"
    by (simp only: clarityScore_closed p p' c s)
  note T = detectAmbiguity_confidence[of "''apple news''" "[]"]
  show ?thesis
    by (intro conjI conf cl conjunct1[OF conjunct2[OF T]]
        conjunct1[OF conjunct2[OF conjunct2[OF T]]])
qed

text \<open>
  C6 (as amended). Each suggestion of \<open>detectAmbiguity\<close> is the original query with every
  occurrence (ignoring case) of an entity term found in it replaced by the first word of one
  of that term's disambiguation labels, every option of the term giving a suggestion, or is
  the sentence narrowing to the first matched category when more than two categories match.
  The list is the first three distinct candidates in that order: it has no duplicates and at
  most 3 entries.
\<close>

theorem detectAmbiguity_suggestions:
  "(\<forall>s \<in> set (suggestions (detectAmbiguity query articles)).
      (\<exists>(term, termOptions) \<in> set AMBIGUOUS_ENTITIES.
          str_includes (toLowerCase query) term \<and>
          (\<exists>opt \<in> set termOptions. s = replace_gi term (first_word (label opt)) query)) \<or>
      (length (extractCategories (toLowerCase query)) > 2 \<and>
       s = ''Show me '' @ hd (extractCategories (toLowerCase query)) @ '' news specifically'')) \<and>
   suggestions (detectAmbiguity query articles)
     = take 3 (new_Set (entity_suggestions query @ category_suggestion query)) \<and>
   distinct (suggestions (detectAmbiguity query articles)) \<and>
   length (suggestions (detectAmbiguity query articles)) \<le> 3"
proof -
  let ?all = "entity_suggestions query @ category_suggestion query"
  have eq: "suggestions (detectAmbiguity query articles) = take 3 (new_Set ?all)"
    by (simp add: detectAmbiguity_closed)
  have d: "distinct (take 3 (new_Set ?all))" by (simp add: distinct_new_Set)
  have l: "length (take 3 (new_Set ?all)) \<le> 3" by simp
  have src: "(\<exists>(term, termOptions) \<in> set AMBIGUOUS_ENTITIES.
          str_includes (toLowerCase query) term \<and>
          (\<exists>opt \<in> set termOptions. s = replace_gi term (first_word (label opt)) query)) \<or>
      (length (extractCategories (toLowerCase query)) > 2 \<and>
       s = ''Show me '' @ hd (extractCategories (toLowerCase query)) @ '' news specifically'')"
    if "s \<in> set (take 3 (new_Set ?all))" for s
  proof -
    from that have "s \<in> set ?all" using set_new_Set[of ?all] by (auto dest: in_set_takeD)
    then consider "s \<in> set (entity_suggestions query)" | "s \<in> set (category_suggestion query)"
      by auto
    then show ?thesis
    proof cases
      case 1
      then obtain t topts opt where "(t, topts) \<in> set (entity_hits (toLowerCase query))"
        "opt \<in> set topts" "s = replace_gi t (first_word (label opt)) query"
        by (auto simp: entity_suggestions_def)
      then show ?thesis by (auto simp: entity_hits_def)
    next
      case 2
      then show ?thesis by (auto simp: category_suggestion_def Let_def split: if_splits)
    qed
  qed
  from src d l show ?thesis unfolding eq by blast
qed

theorem detectAmbiguity_suggestions_witness:
  "suggestions (detectAmbiguity ''bank'' []) = [''Banking'', ''River''] \<and>
   distinct (suggestions (detectAmbiguity ''bank'' [])) \<and>
   length (suggestions (detectAmbiguity ''bank'' [])) \<le> 3"
proof -
  have "take 3 (new_Set (entity_suggestions ''bank'' @ category_suggestion ''bank''))
      = [''Banking'', ''River'']" by code_simp
  then have "suggestions (detectAmbiguity ''bank'' []) = [''Banking'', ''River'']"
    by (simp only: suggestions_closed)
  with detectAmbiguity_suggestions[of "''bank''" "[]"] show ?thesis by blast
qed

text \<open>
  For the query \<open>bank\<close> the suggestion \<open>River\<close> comes from the second option (River Bank,
  confidence 0.15), not from the top label (Banking & Finance, 0.85).
\<close>

theorem detectAmbiguity_top_label_counterexample:
  "''River'' \<in> set (suggestions (detectAmbiguity ''bank'' [])) \<and>
   ''River'' \<notin> set (first_label_suggestions ''bank'') \<and>
   ''River'' \<notin> set (best_label_suggestions ''bank'')"
proof -
  have "''River'' \<in> set (take 3 (new_Set (entity_suggestions ''bank'' @ category_suggestion ''bank'')))"
    by code_simp
  then have a: "''River'' \<in> set (suggestions (detectAmbiguity ''bank'' []))"
    by (simp only: suggestions_closed)
  have b: "''River'' \<notin> set (first_label_suggestions ''bank'')" by code_simp
  have c: "''River'' \<notin> set (best_label_suggestions ''bank'')" by code_simp
  show ?thesis by (intro conjI a b c)
qed

text \<open>
  C7 (as amended). \<open>generateResponse\<close> appends the closing clause of the intents
  \<open>summarize\<close> and \<open>analyze\<close> whenever the result list is non-empty, and the closing clause
  of \<open>compare\<close> whenever the result list has at least two articles; with any other intent,
  or \<open>compare\<close> and a single result, nothing is appended. When the result list is empty the
  whole message is the no-results sentence.
\<close>

theorem generateResponse_closing:
  "(results \<noteq> [] \<and> intent query = Summarize \<longrightarrow>
      generateResponse today tds tlds query results
        = found_sentence today tds tlds query results @ '' I can provide a summary of these articles.'') \<and>
   (results \<noteq> [] \<and> intent query = Analyze \<longrightarrow>
      generateResponse today tds tlds query results
        = found_sentence today tds tlds query results
          @ '' I can analyze these articles for patterns and insights.'') \<and>
   (length results > 1 \<and> intent query = Compare \<longrightarrow>
      generateResponse today tds tlds query results
        = found_sentence today tds tlds query results
          @ '' I can compare how different sources cover this topic.'') \<and>
   (length results = 1 \<and> intent query = Compare \<longrightarrow>
      generateResponse today tds tlds query results = found_sentence today tds tlds query results) \<and>
   (results \<noteq> [] \<and> intent query \<in> {Search, Filter} \<longrightarrow>
      generateResponse today tds tlds query results = found_sentence today tds tlds query results) \<and>
   (results = [] \<longrightarrow> generateResponse today tds tlds query results = no_results_sentence)"
  by (cases "intent query") (auto simp: generateResponse_def Let_def)

theorem generateResponse_closing_witness:
  "generateResponse ''Mon Nov 02 2026'' (\<lambda>_. ''Mon Nov 02 2026'') (\<lambda>_. ''11/2/2026'') compare_query [doc1, doc2]
     = ''Found 2 articles. I can compare how different sources cover this topic.'' \<and>
   generateResponse ''Mon Nov 02 2026'' (\<lambda>_. ''Mon Nov 02 2026'') (\<lambda>_. ''11/2/2026'') compare_query []
     = no_results_sentence"
proof -
  have f: "found_sentence ''Mon Nov 02 2026'' (\<lambda>_. ''Mon Nov 02 2026'') (\<lambda>_. ''11/2/2026'') compare_query [doc1, doc2]
      = ''Found 2 articles.''" by code_simp
  have i: "intent compare_query = Compare" by (simp add: compare_query_def)
  from generateResponse_closing[of "[doc1, doc2]" compare_query "''Mon Nov 02 2026''"
      "\<lambda>_. ''Mon Nov 02 2026''" "\<lambda>_. ''11/2/2026''"]
    generateResponse_closing[of "[]" compare_query "''Mon Nov 02 2026''"
      "\<lambda>_. ''Mon Nov 02 2026''" "\<lambda>_. ''11/2/2026''"] f i
  show ?thesis by simp
qed

text \<open>
  With intent \<open>compare\<close> and exactly one result the list is non-empty and no closing clause
  is appended.
\<close>

theorem generateResponse_compare_counterexample:
  "[doc1] \<noteq> [] \<and> intent compare_query = Compare \<and>
   generateResponse ''Mon Nov 02 2026'' (\<lambda>_. ''Mon Nov 02 2026'') (\<lambda>_. ''11/2/2026'') compare_query [doc1]
     = ''Found 1 article.''"
  by code_simp

text \<open>
  C8. Each topic-discovery contract returns an empty result on an empty input collection:
  \<open>discoverTopics\<close>, \<open>analyzeTopicTrends\<close> (empty current window), \<open>getEmergingTopics\<close>,
  \<open>getTopicsByCategory\<close> (the empty map) and \<open>findRelatedTopics\<close> (no other topics).
  No path of these functions raises, and the extractor is not called on an empty collection.
\<close>

theorem topic_contracts_empty:
  "discoverTopics ek h [] m = [] \<and>
   analyzeTopicTrends ek h [] previousArticles = [] \<and>
   getEmergingTopics ek pd h [] = [] \<and>
   getTopicsByCategory ek h [] = [] \<and>
   findRelatedTopics h tp [] = []"
  by (simp add: discoverTopics_def analyzeTopicTrends_def getEmergingTopics_def
      getTopicsByCategory_def findRelatedTopics_def)

theorem topic_contracts_empty_witness:
  "discoverTopics ex_extract ex_store [] 3 = [] \<and>
   analyzeTopicTrends ex_extract ex_store [] [0, 1, 2] = [] \<and>
   getEmergingTopics ex_extract (\<lambda>_. 0) ex_store [] = [] \<and>
   getTopicsByCategory ex_extract ex_store [] = [] \<and>
   findRelatedTopics ex_store (hd (discoverTopics ex_extract ex_store [0, 1, 2] 3)) [] = []"
  using topic_contracts_empty[of ex_extract ex_store 3 "[0, 1, 2]" "\<lambda>_. 0"
      "hd (discoverTopics ex_extract ex_store [0, 1, 2] 3)"]
  by simp

text \<open>
  C9. Entity terms are matched as substrings of the lower-cased query, vague terms only as
  whole whitespace-separated words. If an entity term occurs anywhere in the query or in
  the lower-cased query, also inside a longer word, then it is reported in
  \<open>ambiguousTerms\<close>, its options are included, and it is one of the entries that each add
  0.2 to the penalty: the penalty is at least the double 0.2 and the confidence at most the
  double 0.8. A vague term is reported exactly when it is one of the words.
\<close>

theorem detectAmbiguity_substring:
  "(term, termOptions) \<in> set AMBIGUOUS_ENTITIES \<Longrightarrow>
   str_includes query term \<or> str_includes (toLowerCase query) term \<Longrightarrow>
   term \<in> set (ambiguousTerms (detectAmbiguity query articles)) \<and>
   set termOptions \<subseteq> set (options (detectAmbiguity query articles)) \<and>
   (term, termOptions) \<in> set (entity_hits (toLowerCase query)) \<and>
   confidence (detectAmbiguity query articles) = max lit_0_1 (dsub 1 (total_penalty query)) \<and>
   total_penalty query \<ge> lit_0_2 \<and>
   total_penalty query \<ge> 0.2 \<and>
   confidence (detectAmbiguity query articles) \<le> lit_0_8 \<and>
   (\<forall>v \<in> set VAGUE_TERMS. v \<in> set (ambiguousTerms (detectAmbiguity query articles))
        \<longleftrightarrow> v \<in> set (split_runs is_space_char (toLowerCase query)))"
proof -
  assume e: "(term, termOptions) \<in> set AMBIGUOUS_ENTITIES"
    and i': "str_includes query term \<or> str_includes (toLowerCase query) term"
  from i' entity_term_in_lower[OF e] have i: "str_includes (toLowerCase query) term" by blast
  let ?hits = "entity_hits (toLowerCase query)"
  let ?words = "split_runs is_space_char (toLowerCase query)"
  from e i have hit: "(term, termOptions) \<in> set ?hits" by (simp add: entity_hits_def)
  then have t: "term \<in> set (map fst ?hits)" by force
  from hit have o: "set termOptions \<subseteq> set (concat (map snd ?hits))" by force
  from hit have "?hits \<noteq> []" by auto
  then have pen: "lit_0_2 \<le> total_penalty query" by (rule total_penalty_entity)
  with lit02(3) have pen': "0.2 \<le> total_penalty query" by simp
  from pen lit08(3) have "1 - total_penalty query \<le> lit_0_8" by linarith
  then have "fl (1 - total_penalty query) \<le> lit_0_8" by (intro fl_le_double lit08) simp_all
  with lit08(4) have conf: "max lit_0_1 (dsub 1 (total_penalty query)) \<le> lit_0_8"
    by (simp add: dsub_def)
  have disj: "\<forall>v \<in> set VAGUE_TERMS. v \<notin> fst ` set AMBIGUOUS_ENTITIES"
    by (simp add: VAGUE_TERMS_def AMBIGUOUS_ENTITIES_def)
  have vag: "\<forall>v \<in> set VAGUE_TERMS. v \<in> set (map fst ?hits @ vague_hits ?words) \<longleftrightarrow> v \<in> set ?words"
  proof
    fix v assume v: "v \<in> set VAGUE_TERMS"
    with disj have "v \<notin> fst ` set ?hits" by (auto simp: entity_hits_def)
    with v show "v \<in> set (map fst ?hits @ vague_hits ?words) \<longleftrightarrow> v \<in> set ?words"
      by (auto simp: vague_hits_def)
  qed
  from t o hit pen pen' conf vag show ?thesis by (simp add: detectAmbiguity_closed)
qed

theorem detectAmbiguity_substring_witness:
  "ambiguousTerms (detectAmbiguity ''pineapple newspaper recipes'' []) = [''apple''] \<and>
   map label (options (detectAmbiguity ''pineapple newspaper recipes'' []))
     = [''Apple Inc. (Technology)'', ''Apple (Fruit)''] \<and>
   confidence (detectAmbiguity ''pineapple newspaper recipes'' []) = lit_0_8 \<and>
   ''news'' \<notin> set (ambiguousTerms (detectAmbiguity ''pineapple newspaper recipes'' [])) \<and>
   total_penalty ''pineapple newspaper recipes'' \<ge> 0.2"
proof -
  let ?q = "''pineapple newspaper recipes''"
  have e: "(''apple'', snd (hd AMBIGUOUS_ENTITIES)) \<in> set AMBIGUOUS_ENTITIES"
    by (simp add: AMBIGUOUS_ENTITIES_def)
  have i: "str_includes ?q ''apple'' \<or> str_includes (toLowerCase ?q) ''apple''" by code_simp
  have "map fst (entity_hits (toLowerCase ?q)) @ vague_hits (split_runs is_space_char (toLowerCase ?q))
      = [''apple'']" by code_simp
  then have a: "ambiguousTerms (detectAmbiguity ?q []) = [''apple'']"
    by (simp only: ambiguousTerms_closed)
  have "map label (concat (map snd (entity_hits (toLowerCase ?q))))
      = [''Apple Inc. (Technology)'', ''Apple (Fruit)'']" by code_simp
  then have b: "map label (options (detectAmbiguity ?q [])) = [''Apple Inc. (Technology)'', ''Apple (Fruit)'']"
    by (simp only: options_closed)
  have h: "length (entity_hits (toLowerCase ?q)) = 1" by code_simp
  have v: "length (vague_hits (split_runs is_space_char (toLowerCase ?q))) = 0" by code_simp
  have w: "length (split_runs is_space_char (toLowerCase ?q)) = 3" by code_simp
  have k: "length (extractCategories (toLowerCase ?q)) = 0" by code_simp
  have p: "total_penalty ?q = dadd 0 lit_0_2" by (simp add: total_penalty_def Let_def h v w k)
  have "max lit_0_1 (dsub 1 (dadd 0 lit_0_2)) = lit_0_8" by code_simp
  then have c: "confidence (detectAmbiguity ?q []) = lit_0_8" by (simp only: confidence_closed p)
  from a have n: "''news'' \<notin> set (ambiguousTerms (detectAmbiguity ?q []))" by simp
  note T = detectAmbiguity_substring[OF e i, of "[]"]
  have t: "total_penalty ?q \<ge> 0.2"
    using conjunct1[OF conjunct2[OF conjunct2[OF conjunct2[OF conjunct2[OF conjunct2[OF T]]]]]] .
  show ?thesis by (intro conjI a b c n t)
qed

text \<open>
  C10. For a collection of fewer than 6 documents the recent half of the midpoint split has
  at most 2 documents, discovery over it with the default threshold 3 yields no topic, the
  trend list is empty, and every topic returned by \<open>getEmergingTopics\<close> has trend
  \<open>stable\<close> and velocity 0.
\<close>

theorem getEmergingTopics_small:
  "length arts < 6 \<Longrightarrow>
   discoverTopics ek h (take (length arts div 2) (sort_key (\<lambda>a. - getTime pd (h a)) arts))
      minArticles_default = [] \<and>
   (\<forall>t \<in> set (getEmergingTopics ek pd h arts). trend t = stable \<and> velocity t = 0)"
proof -
  assume small: "length arts < 6"
  let ?sorted = "sort_key (\<lambda>a. - getTime pd (h a)) arts"
  let ?recent = "take (length ?sorted div 2) ?sorted"
  have "length ?recent \<le> 2" using small by simp
  then have "int (length ?recent) < minArticles_default" by (simp add: minArticles_default_def)
  then have none: "discoverTopics ek h ?recent minArticles_default = []"
    by (rule discoverTopics_small)
  then have trends: "analyzeTopicTrends ek h ?recent (drop (length ?sorted div 2) ?sorted) = []"
    by (simp add: analyzeTopicTrends_def)
  have "trend t = stable \<and> velocity t = 0" if "t \<in> set (getEmergingTopics ek pd h arts)" for t
  proof -
    from that trends obtain tp where "t = enrich [] tp"
      by (auto simp: getEmergingTopics_def Let_def)
    then show ?thesis by (simp add: enrich_no_trends)
  qed
  with none show ?thesis by simp
qed

theorem getEmergingTopics_small_witness:
  "length [0, 1, 2, 3, 4 :: nat] < 6 \<and>
   map name (getEmergingTopics ex_extract (\<lambda>_. 0) ex_store [0, 1, 2, 3, 4]) = [''alpha''] \<and>
   map trend (getEmergingTopics ex_extract (\<lambda>_. 0) ex_store [0, 1, 2, 3, 4]) = [stable] \<and>
   map velocity (getEmergingTopics ex_extract (\<lambda>_. 0) ex_store [0, 1, 2, 3, 4]) = [0]"
proof -
  let ?X = "getEmergingTopics ex_extract (\<lambda>_. 0) ex_store [0, 1, 2, 3, 4]"
  have l: "length [0, 1, 2, 3, 4 :: nat] < 6" by simp
  have n: "map name ?X = [''alpha'']" by code_simp
  then obtain t where x: "?X = [t]" by (cases ?X) auto
  then have "t \<in> set ?X" by simp
  with conjunct2[OF getEmergingTopics_small[OF l, of ex_extract ex_store "\<lambda>_. 0"]]
  have "trend t = stable \<and> velocity t = 0" by blast
  with x have "map trend ?X = [stable]" "map velocity ?X = [0]" by simp_all
  with l n show ?thesis by (intro conjI)
qed

end
